theory Spec2Isabelle
  imports Main "HOL-Library.Product_Lexorder"
begin

section \<open>A shallow embedding of \<open>puzzle_solver.py\<close>\<close>

text \<open>
  The calendar puzzle solver tiles a 7 x 7 board (minus six blocked cells and the two
  cells of the chosen date) with eight polyominoes by depth-first backtracking.
  Coordinates are Python integers (\<open>int\<close>), a piece is a list of offsets, a Python
  exception is the left summand of the result type.
\<close>

subsection \<open>Python values and exceptions\<close>

type_synonym cell = "int \<times> int"
type_synonym shape = "cell list"

datatype py_error = ValueError | IndexError | KeyError | RecursionError

text \<open>Sequencing of computations that may raise: the first exception wins.\<close>

definition andthen :: "py_error + 'a \<Rightarrow> ('a \<Rightarrow> py_error + 'b) \<Rightarrow> py_error + 'b" where
  "andthen m f = (case m of Inl e \<Rightarrow> Inl e | Inr x \<Rightarrow> f x)"

text \<open>\<open>min(...)\<close> over a generator: \<open>ValueError\<close> on an empty sequence.\<close>

definition py_min :: "int list \<Rightarrow> py_error + int" where
  "py_min xs = (if xs = [] then Inl ValueError else Inr (Min (set xs)))"

text \<open>\<open>range(n)\<close> as a list of Python integers.\<close>

definition py_range :: "int \<Rightarrow> int list" where
  "py_range n = [0..n - 1]"

text \<open>List indexing by a non-negative index, and by any integer (negative indices count
  from the end); out of range raises \<open>IndexError\<close>.\<close>

definition list_get :: "'a list \<Rightarrow> nat \<Rightarrow> py_error + 'a" where
  "list_get xs i = (if i < length xs then Inr (xs ! i) else Inl IndexError)"

definition list_set :: "'a list \<Rightarrow> nat \<Rightarrow> 'a \<Rightarrow> py_error + 'a list" where
  "list_set xs i v = (if i < length xs then Inr (xs[i := v]) else Inl IndexError)"

definition py_index :: "'a list \<Rightarrow> int \<Rightarrow> py_error + 'a" where
  "py_index xs i =
     (if 0 \<le> i then list_get xs (nat i)
      else if - int (length xs) \<le> i then Inr (xs ! nat (int (length xs) + i))
      else Inl IndexError)"

text \<open>Dictionary lookup \<open>d[k]\<close>: \<open>KeyError\<close> on a missing key.\<close>

definition dict_get :: "('k \<rightharpoonup> 'v) \<Rightarrow> 'k \<Rightarrow> py_error + 'v" where
  "dict_get d k = (case d k of None \<Rightarrow> Inl KeyError | Some v \<Rightarrow> Inr v)"

text \<open>The comprehension \<open>{v: k for k, v in d.items()}\<close> over a dictionary given by its
  items in insertion order: a later item overrides an earlier one with the same value.\<close>

definition invert_dict :: "('k \<times> 'v) list \<Rightarrow> ('v \<rightharpoonup> 'k)" where
  "invert_dict items = fold (\<lambda>(k, v) m. m(v \<mapsto> k)) items Map.empty"

text \<open>A Python set of hashable values, kept as the list of its elements in insertion
  order; \<open>add\<close> ignores an element already present.\<close>

definition set_add :: "'a \<Rightarrow> 'a list \<Rightarrow> 'a list" where
  "set_add x xs = (if x \<in> set xs then xs else xs @ [x])"

text \<open>
  The order in which Python iterates over a set is fixed by the hashes of its elements
  and not by the source text. The model takes that order as a parameter \<open>it\<close>, which
  maps the elements of a set to the sequence in which the iteration yields them; every
  admissible \<open>it\<close> yields each element of the set once.
\<close>

definition set_iteration :: "('a list \<Rightarrow> 'a list) \<Rightarrow> bool" where
  "set_iteration it \<longleftrightarrow> (\<forall>xs. distinct xs \<longrightarrow> distinct (it xs) \<and> set (it xs) = set xs)"

subsection \<open>Board layout and calendar tables\<close>

definition BOARD_ROWS :: int where "BOARD_ROWS = 7"
definition BOARD_COLS :: int where "BOARD_COLS = 7"

definition BLOCKED :: "cell set" where
  "BLOCKED = {(0, 6), (1, 6), (6, 3), (6, 4), (6, 5), (6, 6)}"

text \<open>The month names; the third one is \<open>M\<close>, a-umlaut (two bytes in UTF-8), \<open>r\<close>.\<close>

definition Maer :: string where
  "Maer = [CHR ''M'', CHR 0xC3, CHR 0xA4, CHR ''r'']"

definition MONTHS :: "(cell \<times> string) list" where
  "MONTHS =
    [((0, 0), ''Jan''), ((0, 1), ''Feb''), ((0, 2), Maer), ((0, 3), ''Apr''),
     ((0, 4), ''Mai''), ((0, 5), ''Jun''),
     ((1, 0), ''Jul''), ((1, 1), ''Aug''), ((1, 2), ''Sep''), ((1, 3), ''Okt''),
     ((1, 4), ''Nov''), ((1, 5), ''Dez'')]"

text \<open>The module-level loop that numbers the day cells. Every key is visited once, so
  the assignment \<open>DAYS[(row, col)] = day\<close> always adds a new item.\<close>

definition DAYS :: "(cell \<times> int) list" where
  "DAYS = fst (fold
      (\<lambda>rc (days, day).
         if rc \<notin> BLOCKED \<and> day \<le> 31 then (days @ [(rc, day)], day + 1) else (days, day))
      [(row, col). row \<leftarrow> [2..6], col \<leftarrow> py_range 7] ([], 1))"

definition MONTH_TO_POS :: "string \<rightharpoonup> cell" where
  "MONTH_TO_POS = invert_dict MONTHS"

definition MONTH_NAMES :: "string list" where
  "MONTH_NAMES = [''Jan'', ''Feb'', Maer, ''Apr'', ''Mai'', ''Jun'',
                  ''Jul'', ''Aug'', ''Sep'', ''Okt'', ''Nov'', ''Dez'']"

definition DAY_TO_POS :: "int \<rightharpoonup> cell" where
  "DAY_TO_POS = invert_dict DAYS"

definition get_all_valid_cells :: "cell set" where
  "get_all_valid_cells =
     set [(r, c). r \<leftarrow> py_range BOARD_ROWS, c \<leftarrow> py_range BOARD_COLS, (r, c) \<notin> BLOCKED]"

subsection \<open>The pieces\<close>

definition PIECES :: "shape list" where
  "PIECES =
    [[(0, 0), (0, 1), (1, 0), (1, 1), (2, 0), (2, 1)],
     [(0, 0), (1, 0), (2, 0), (3, 0), (3, 1)],
     [(0, 0), (0, 1), (1, 1), (2, 1), (2, 2)],
     [(0, 0), (0, 2), (1, 0), (1, 1), (1, 2)],
     [(0, 1), (1, 0), (1, 1), (2, 0), (3, 0)],
     [(0, 0), (0, 1), (1, 0), (1, 1), (2, 0)],
     [(0, 1), (1, 0), (1, 1), (2, 1), (3, 1)],
     [(0, 0), (1, 0), (2, 0), (2, 1), (2, 2)]]"

subsection \<open>Orientation generator\<close>

definition rotate_piece :: "shape \<Rightarrow> py_error + shape" where
  "rotate_piece piece =
     (let rotated = map (\<lambda>(r, c). (c, - r)) piece in
      andthen (py_min (map fst rotated)) (\<lambda>min_r.
      andthen (py_min (map snd rotated)) (\<lambda>min_c.
      Inr (map (\<lambda>(r, c). (r - min_r, c - min_c)) rotated))))"

definition flip_piece :: "shape \<Rightarrow> py_error + shape" where
  "flip_piece piece =
     (let flipped = map (\<lambda>(r, c). (r, - c)) piece in
      andthen (py_min (map fst flipped)) (\<lambda>min_r.
      andthen (py_min (map snd flipped)) (\<lambda>min_c.
      Inr (map (\<lambda>(r, c). (r - min_r, c - min_c)) flipped))))"

text \<open>\<open>sorted\<close> orders the offset pairs lexicographically, as \<open>sort\<close> does for
  the product order of \<open>Product_Lexorder\<close>.\<close>

definition normalize_piece :: "shape \<Rightarrow> py_error + shape" where
  "normalize_piece piece =
     andthen (py_min (map fst piece)) (\<lambda>min_r.
     andthen (py_min (map snd piece)) (\<lambda>min_c.
     let normalized = map (\<lambda>(r, c). (r - min_r, c - min_c)) piece in
     Inr (sort normalized)))"

text \<open>The loop \<open>for _ in range(4)\<close> of \<open>get_all_orientations\<close>, with the set
  \<open>orientations\<close> and the shape \<open>current\<close> as its state.\<close>

fun orientations_loop :: "nat \<Rightarrow> shape list \<Rightarrow> shape \<Rightarrow> py_error + shape list" where
  "orientations_loop 0 orientations current = Inr orientations"
| "orientations_loop (Suc n) orientations current =
     andthen (normalize_piece current) (\<lambda>plain.
     andthen (flip_piece current) (\<lambda>flipped.
     andthen (normalize_piece flipped) (\<lambda>mirrored.
     andthen (rotate_piece current) (\<lambda>rotated.
     orientations_loop n (set_add mirrored (set_add plain orientations)) rotated))))"

definition get_all_orientations :: "(shape list \<Rightarrow> shape list) \<Rightarrow> shape \<Rightarrow> py_error + shape list" where
  "get_all_orientations it piece =
     andthen (orientations_loop 4 [] piece) (\<lambda>orientations. Inr (it orientations))"

fun collect :: "('a \<Rightarrow> py_error + 'b) \<Rightarrow> 'a list \<Rightarrow> py_error + 'b list" where
  "collect f [] = Inr []"
| "collect f (x # xs) = andthen (f x) (\<lambda>y. andthen (collect f xs) (\<lambda>ys. Inr (y # ys)))"

definition precompute_piece_orientations :: "(shape list \<Rightarrow> shape list) \<Rightarrow> py_error + shape list list" where
  "precompute_piece_orientations it = collect (get_all_orientations it) PIECES"

subsection \<open>The board array and the search state\<close>

text \<open>
  The board is the 7 x 7 integer array made by \<open>np.full\<close>: a value for every index
  pair inside the shape. An index pair is resolved as NumPy does: a negative index
  counts from the end of its axis, and an index outside the axis raises
  \<open>IndexError\<close>. The state of a search is the board, the list \<open>used_pieces\<close>, both
  mutated in place by the source, and a ghost log of the index pairs handed to the
  array (the most recent access first), which no function reads.
\<close>

datatype access = Rd cell | Wr cell int

record search_state =
  board :: "cell \<Rightarrow> int"
  used_pieces :: "bool list"
  accesses :: "access list"

definition np_index :: "cell \<Rightarrow> py_error + cell" where
  "np_index rc =
     (case rc of (r, c) \<Rightarrow>
        let r' = (if r < 0 then r + BOARD_ROWS else r);
            c' = (if c < 0 then c + BOARD_COLS else c)
        in if 0 \<le> r' \<and> r' < BOARD_ROWS \<and> 0 \<le> c' \<and> c' < BOARD_COLS
           then Inr (r', c') else Inl IndexError)"

definition np_get :: "search_state \<Rightarrow> cell \<Rightarrow> py_error + (int \<times> search_state)" where
  "np_get s rc =
     andthen (np_index rc) (\<lambda>i. Inr (board s i, s\<lparr>accesses := Rd rc # accesses s\<rparr>))"

definition np_set :: "search_state \<Rightarrow> cell \<Rightarrow> int \<Rightarrow> py_error + search_state" where
  "np_set s rc v =
     andthen (np_index rc) (\<lambda>i.
       Inr (s\<lparr>board := (board s)(i := v), accesses := Wr rc v # accesses s\<rparr>))"

subsection \<open>Placement primitives\<close>

fun can_place_piece ::
  "search_state \<Rightarrow> shape \<Rightarrow> int \<Rightarrow> int \<Rightarrow> cell set \<Rightarrow> py_error + (bool \<times> search_state)" where
  "can_place_piece s [] start_row start_col valid_cells = Inr (True, s)"
| "can_place_piece s ((dr, dc) # piece) start_row start_col valid_cells =
     (let r = start_row + dr; c = start_col + dc in
      if (r, c) \<notin> valid_cells then Inr (False, s)
      else andthen (np_get s (r, c)) (\<lambda>(v, s').
             if v \<noteq> - 1 then Inr (False, s')
             else can_place_piece s' piece start_row start_col valid_cells))"

fun place_piece :: "search_state \<Rightarrow> shape \<Rightarrow> int \<Rightarrow> int \<Rightarrow> int \<Rightarrow> py_error + search_state" where
  "place_piece s [] start_row start_col piece_id = Inr s"
| "place_piece s ((dr, dc) # piece) start_row start_col piece_id =
     andthen (np_set s (start_row + dr, start_col + dc) piece_id) (\<lambda>s'.
       place_piece s' piece start_row start_col piece_id)"

fun remove_piece :: "search_state \<Rightarrow> shape \<Rightarrow> int \<Rightarrow> int \<Rightarrow> py_error + search_state" where
  "remove_piece s [] start_row start_col = Inr s"
| "remove_piece s ((dr, dc) # piece) start_row start_col =
     andthen (np_set s (start_row + dr, start_col + dc) (- 1)) (\<lambda>s'.
       remove_piece s' piece start_row start_col)"

text \<open>The two nested \<open>range\<close> loops of \<open>find_first_empty\<close> run over the cells in
  reading order; \<open>and\<close> short-circuits, so the array is read only for a valid cell.\<close>

fun first_empty_from ::
  "search_state \<Rightarrow> cell set \<Rightarrow> cell list \<Rightarrow> py_error + (cell option \<times> search_state)" where
  "first_empty_from s valid_cells [] = Inr (None, s)"
| "first_empty_from s valid_cells (rc # rest) =
     (if rc \<in> valid_cells
      then andthen (np_get s rc) (\<lambda>(v, s').
             if v = - 1 then Inr (Some rc, s') else first_empty_from s' valid_cells rest)
      else first_empty_from s valid_cells rest)"

definition find_first_empty ::
  "search_state \<Rightarrow> cell set \<Rightarrow> py_error + (cell option \<times> search_state)" where
  "find_first_empty s valid_cells =
     first_empty_from s valid_cells
       [(r, c). r \<leftarrow> py_range BOARD_ROWS, c \<leftarrow> py_range BOARD_COLS]"

subsection \<open>The backtracking search\<close>

text \<open>
  The three nested loops of \<open>solve\<close>, innermost first. Each returns the verdict
  together with the state; \<open>True\<close> is the early \<open>return True\<close>, which leaves every
  enclosing loop. The parameter \<open>rec\<close> is the recursive call of \<open>solve\<close>.
\<close>

type_synonym solver = "search_state \<Rightarrow> py_error + (bool \<times> search_state)"

fun try_offsets ::
  "solver \<Rightarrow> cell set \<Rightarrow> int \<Rightarrow> int \<Rightarrow> nat \<Rightarrow> shape \<Rightarrow> shape \<Rightarrow> search_state
     \<Rightarrow> py_error + (bool \<times> search_state)" where
  "try_offsets rec valid_cells row col piece_id piece [] s = Inr (False, s)"
| "try_offsets rec valid_cells row col piece_id piece ((dr, dc) # rest) s =
     (let start_row = row - dr; start_col = col - dc in
      andthen (can_place_piece s piece start_row start_col valid_cells) (\<lambda>(ok, s1).
        if ok then
          andthen (place_piece s1 piece start_row start_col (int piece_id)) (\<lambda>s2.
          andthen (list_set (used_pieces s2) piece_id True) (\<lambda>u.
          andthen (rec (s2\<lparr>used_pieces := u\<rparr>)) (\<lambda>(found, s3).
            if found then Inr (True, s3)
            else
              andthen (remove_piece s3 piece start_row start_col) (\<lambda>s4.
              andthen (list_set (used_pieces s4) piece_id False) (\<lambda>u'.
              try_offsets rec valid_cells row col piece_id piece rest
                (s4\<lparr>used_pieces := u'\<rparr>))))))
        else try_offsets rec valid_cells row col piece_id piece rest s1))"

fun try_orientations ::
  "solver \<Rightarrow> cell set \<Rightarrow> int \<Rightarrow> int \<Rightarrow> nat \<Rightarrow> shape list \<Rightarrow> search_state
     \<Rightarrow> py_error + (bool \<times> search_state)" where
  "try_orientations rec valid_cells row col piece_id [] s = Inr (False, s)"
| "try_orientations rec valid_cells row col piece_id (piece # rest) s =
     andthen (try_offsets rec valid_cells row col piece_id piece piece s) (\<lambda>(found, s').
       if found then Inr (True, s')
       else try_orientations rec valid_cells row col piece_id rest s')"

fun try_pieces ::
  "solver \<Rightarrow> cell set \<Rightarrow> int \<Rightarrow> int \<Rightarrow> nat \<Rightarrow> shape list list \<Rightarrow> search_state
     \<Rightarrow> py_error + (bool \<times> search_state)" where
  "try_pieces rec valid_cells row col piece_id [] s = Inr (False, s)"
| "try_pieces rec valid_cells row col piece_id (orientations # rest) s =
     andthen (list_get (used_pieces s) piece_id) (\<lambda>used.
       if used then try_pieces rec valid_cells row col (Suc piece_id) rest s
       else
         andthen (try_orientations rec valid_cells row col piece_id orientations s)
           (\<lambda>(found, s').
              if found then Inr (True, s')
              else try_pieces rec valid_cells row col (Suc piece_id) rest s'))"

text \<open>
  \<open>solve\<close> itself. Its first argument bounds the depth of the call stack: a call that
  would nest deeper raises \<open>RecursionError\<close>, as the interpreter does at its recursion
  limit.
\<close>

primrec solve ::
  "nat \<Rightarrow> shape list list \<Rightarrow> cell set \<Rightarrow> search_state \<Rightarrow> py_error + (bool \<times> search_state)" where
  "solve 0 pieces_orientations valid_cells s = Inl RecursionError"
| "solve (Suc depth) pieces_orientations valid_cells s =
     andthen (find_first_empty s valid_cells) (\<lambda>(empty, s1).
       case empty of
         None \<Rightarrow> Inr (True, s1)
       | Some (row, col) \<Rightarrow>
           try_pieces (solve depth pieces_orientations valid_cells) valid_cells row col 0
             pieces_orientations s1)"

text \<open>\<open>solve_puzzle\<close> up to and including its call of \<open>solve\<close> (\<open>run_search\<close>), and
  the final choice between the board and \<open>None\<close>.\<close>

definition playable :: "cell \<Rightarrow> cell \<Rightarrow> cell set" where
  "playable month_pos day_pos = get_all_valid_cells - {month_pos} - {day_pos}"

definition initial_state :: "cell set \<Rightarrow> search_state" where
  "initial_state valid_cells =
     \<lparr>board = (\<lambda>rc. if rc \<in> valid_cells then - 1 else - 2),
      used_pieces = replicate (length PIECES) False,
      accesses = []\<rparr>"

definition run_search ::
  "nat \<Rightarrow> (shape list \<Rightarrow> shape list) \<Rightarrow> int \<Rightarrow> int \<Rightarrow> py_error + (bool \<times> search_state)" where
  "run_search depth it month day =
     andthen (py_index MONTH_NAMES (month - 1)) (\<lambda>month_name.
     andthen (dict_get MONTH_TO_POS month_name) (\<lambda>month_pos.
     andthen (dict_get DAY_TO_POS day) (\<lambda>day_pos.
     andthen (precompute_piece_orientations it) (\<lambda>pieces_orientations.
       solve depth pieces_orientations (playable month_pos day_pos)
         (initial_state (playable month_pos day_pos))))))"

definition solve_puzzle ::
  "nat \<Rightarrow> (shape list \<Rightarrow> shape list) \<Rightarrow> int \<Rightarrow> int \<Rightarrow> py_error + (cell \<Rightarrow> int) option" where
  "solve_puzzle depth it month day =
     andthen (run_search depth it month day) (\<lambda>(found, s).
       Inr (if found then Some (board s) else None))"

section \<open>Vocabulary of the specification\<close>

subsection \<open>Extent and symmetry of shapes\<close>

text \<open>The smallest and largest row and column of a shape, the re-anchoring that
  \<open>rotate_piece\<close>, \<open>flip_piece\<close> and \<open>normalize_piece\<close> share, and the plane
  isometries behind the orientations: a quarter turn, the mirror image and translations.
  A shape has a symmetry when some quarter turns, optionally followed by the mirror
  image, other than the identity, map its set of cells onto a translate of itself.\<close>

definition min_row :: "shape \<Rightarrow> int" where "min_row p = Min (fst ` set p)"
definition min_col :: "shape \<Rightarrow> int" where "min_col p = Min (snd ` set p)"
definition max_row :: "shape \<Rightarrow> int" where "max_row p = Max (fst ` set p)"
definition max_col :: "shape \<Rightarrow> int" where "max_col p = Max (snd ` set p)"

definition reanchor :: "shape \<Rightarrow> shape" where
  "reanchor p = map (\<lambda>(r, c). (r - min_row p, c - min_col p)) p"

definition rot90 :: "cell \<Rightarrow> cell" where "rot90 = (\<lambda>(r, c). (c, - r))"
definition mirror :: "cell \<Rightarrow> cell" where "mirror = (\<lambda>(r, c). (r, - c))"
definition translate :: "cell \<Rightarrow> cell \<Rightarrow> cell" where
  "translate t = (\<lambda>(r, c). (r + fst t, c + snd t))"

definition has_symmetry :: "shape \<Rightarrow> bool" where
  "has_symmetry p \<longleftrightarrow>
     (\<exists>k < 4. \<exists>m. (k \<noteq> 0 \<or> m) \<and>
        (\<exists>t. translate t ` (if m then mirror else id) ` (rot90 ^^ k) ` set p = set p))"

definition canon :: "cell set \<Rightarrow> shape" where
  "canon S = sorted_list_of_set
     ((\<lambda>(r, c). (r - Min (fst ` S), c - Min (snd ` S))) ` S)"

definition well_anchored :: "nat \<Rightarrow> shape \<Rightarrow> bool" where
  "well_anchored n p \<longleftrightarrow> min_row p = 0 \<and> min_col p = 0 \<and> length p = n"

subsection \<open>Cells, footprints and the access log\<close>

text \<open>A cell lies on the board when both coordinates are inside the array's shape.\<close>

definition on_board :: "cell \<Rightarrow> bool" where
  "on_board rc \<longleftrightarrow> 0 \<le> fst rc \<and> fst rc < BOARD_ROWS \<and> 0 \<le> snd rc \<and> snd rc < BOARD_COLS"

text \<open>The cells a piece covers when anchored at \<open>(start_row, start_col)\<close>, and the array
  elements those index pairs resolve to.\<close>

definition footprint :: "shape \<Rightarrow> int \<Rightarrow> int \<Rightarrow> cell set" where
  "footprint piece start_row start_col = (\<lambda>(dr, dc). (start_row + dr, start_col + dc)) ` set piece"

definition elements :: "shape \<Rightarrow> int \<Rightarrow> int \<Rightarrow> cell set" where
  "elements piece start_row start_col =
     {i. \<exists>rc \<in> footprint piece start_row start_col. np_index rc = Inr i}"

text \<open>The number of pieces not yet placed.\<close>

definition unused :: "search_state \<Rightarrow> nat" where
  "unused s = length (filter (\<lambda>b. \<not> b) (used_pieces s))"

text \<open>The valid cells that are still empty.\<close>

definition empty_cells :: "cell set \<Rightarrow> (cell \<Rightarrow> int) \<Rightarrow> cell set" where
  "empty_cells valid_cells b = {rc \<in> valid_cells. b rc = - 1}"

text \<open>The index pair of a logged access, and the board that a log (most recent access
  first) produces from a given board.\<close>

fun access_cell :: "access \<Rightarrow> cell" where
  "access_cell (Rd rc) = rc"
| "access_cell (Wr rc v) = rc"

fun board_after :: "access list \<Rightarrow> (cell \<Rightarrow> int) \<Rightarrow> (cell \<Rightarrow> int)" where
  "board_after [] b = b"
| "board_after (Rd rc # log) b = board_after log b"
| "board_after (Wr rc v # log) b =
     (case np_index rc of
        Inr i \<Rightarrow> (board_after log b)(i := v)
      | Inl e \<Rightarrow> board_after log b)"

text \<open>State \<open>s'\<close> continues state \<open>s\<close> inside a set of cells: the log of \<open>s'\<close> adds
  accesses to that of \<open>s\<close>, all of them at index pairs of the set, and the board of
  \<open>s'\<close> is the board of \<open>s\<close> after those accesses.\<close>

definition continues :: "cell set \<Rightarrow> search_state \<Rightarrow> search_state \<Rightarrow> bool" where
  "continues cells s s' \<longleftrightarrow>
     (\<exists>new. accesses s' = new @ accesses s \<and> board s' = board_after new (board s)
        \<and> (\<forall>a \<in> set new. access_cell a \<in> cells))"

text \<open>A solver keeps to the undo discipline inside a set of cells: whatever it returns,
  the state continues the one it was given, and when it reports failure the board and
  the used flags are as it found them.\<close>

definition keeps :: "cell set \<Rightarrow> solver \<Rightarrow> bool" where
  "keeps valid_cells rec \<longleftrightarrow>
     (\<forall>s ok s'. rec s = Inr (ok, s') \<longrightarrow> continues valid_cells s s'
        \<and> (\<not> ok \<longrightarrow> board s' = board s \<and> used_pieces s' = used_pieces s))"


subsection \<open>Tilings\<close>

text \<open>The board after a piece identifier has been written to a set of cells.\<close>

definition stamp :: "(cell \<Rightarrow> int) \<Rightarrow> cell set \<Rightarrow> int \<Rightarrow> (cell \<Rightarrow> int)" where
  "stamp b cells v = (\<lambda>rc. if rc \<in> cells then v else b rc)"

text \<open>A placement is an orientation with its anchor; \<open>placement_cells\<close> is its
  footprint.\<close>

definition placement_cells :: "shape \<times> int \<times> int \<Rightarrow> cell set" where
  "placement_cells p = footprint (fst p) (fst (snd p)) (snd (snd p))"

text \<open>
  A state can be completed when the pieces not yet used have placements, each in one
  of the piece's orientations, that are pairwise disjoint and cover exactly the valid
  cells that are still empty.
\<close>

definition completable ::
  "shape list list \<Rightarrow> cell set \<Rightarrow> (cell \<Rightarrow> int) \<Rightarrow> bool list \<Rightarrow> bool" where
  "completable pieces_orientations valid_cells b u \<longleftrightarrow>
     (\<exists>pl :: nat \<Rightarrow> shape \<times> int \<times> int.
        (\<forall>k < length pieces_orientations. \<not> u ! k \<longrightarrow> fst (pl k) \<in> set (pieces_orientations ! k))
      \<and> (\<forall>j < length pieces_orientations. \<forall>k < length pieces_orientations.
            \<not> u ! j \<longrightarrow> \<not> u ! k \<longrightarrow> j \<noteq> k \<longrightarrow>
            placement_cells (pl j) \<inter> placement_cells (pl k) = {})
      \<and> empty_cells valid_cells b
          = (\<Union>k \<in> {k. k < length pieces_orientations \<and> \<not> u ! k}. placement_cells (pl k)))"

text \<open>Placing orientation \<open>piece\<close> of piece \<open>k\<close> at an anchor is a winning move when
  the piece fits on empty valid cells there and the state it leads to can be completed.\<close>

definition winning ::
  "shape list list \<Rightarrow> cell set \<Rightarrow> (cell \<Rightarrow> int) \<Rightarrow> bool list \<Rightarrow> nat \<Rightarrow> shape \<Rightarrow> int \<Rightarrow> int \<Rightarrow> bool" where
  "winning pieces_orientations valid_cells b u k piece start_row start_col \<longleftrightarrow>
     footprint piece start_row start_col \<subseteq> empty_cells valid_cells b
   \<and> completable pieces_orientations valid_cells
       (stamp b (footprint piece start_row start_col) (int k)) (u[k := True])"

text \<open>A solver is thorough on the states that have one flag per piece and fewer than
  \<open>n\<close> unused pieces when it returns on each of them, and succeeds on each that can be
  completed.\<close>

definition thorough ::
  "shape list list \<Rightarrow> cell set \<Rightarrow> nat \<Rightarrow> solver \<Rightarrow> bool" where
  "thorough pieces_orientations valid_cells n rec \<longleftrightarrow>
     (\<forall>s. length (used_pieces s) = length pieces_orientations \<and> unused s < n \<longrightarrow>
        (\<exists>ok s'. rec s = Inr (ok, s')
           \<and> (completable pieces_orientations valid_cells (board s) (used_pieces s) \<longrightarrow> ok)))"

text \<open>An orientation wins at the empty cell \<open>(row, col)\<close> when one of its offsets,
  laid on that cell, gives a winning move; a piece wins when it is unused and one of
  its orientations wins.\<close>

definition orientation_wins ::
  "shape list list \<Rightarrow> cell set \<Rightarrow> (cell \<Rightarrow> int) \<Rightarrow> bool list \<Rightarrow> int \<Rightarrow> int \<Rightarrow> nat \<Rightarrow> shape \<Rightarrow> bool" where
  "orientation_wins pieces_orientations valid_cells b u row col k piece \<longleftrightarrow>
     (\<exists>d \<in> set piece.
        winning pieces_orientations valid_cells b u k piece (row - fst d) (col - snd d))"

definition piece_wins ::
  "shape list list \<Rightarrow> cell set \<Rightarrow> (cell \<Rightarrow> int) \<Rightarrow> bool list \<Rightarrow> int \<Rightarrow> int \<Rightarrow> nat \<Rightarrow> bool" where
  "piece_wins pieces_orientations valid_cells b u row col k \<longleftrightarrow>
     \<not> u ! k \<and> (\<exists>piece \<in> set (pieces_orientations ! k).
        orientation_wins pieces_orientations valid_cells b u row col k piece)"

text \<open>
  The invariant of the search. There is a flag for every piece; every valid cell is
  empty or holds the identifier of a used piece; and the valid cells that hold the
  identifier of a used piece are exactly the footprint of one of its orientations at
  some anchor.
\<close>

definition tiled ::
  "shape list list \<Rightarrow> cell set \<Rightarrow> (cell \<Rightarrow> int) \<Rightarrow> bool list \<Rightarrow> bool" where
  "tiled pieces_orientations valid_cells b u \<longleftrightarrow>
     length u = length pieces_orientations
   \<and> (\<forall>rc \<in> valid_cells. b rc = - 1 \<or> (\<exists>k < length pieces_orientations. b rc = int k \<and> u ! k))
   \<and> (\<forall>k < length pieces_orientations. u ! k \<longrightarrow>
         (\<exists>piece \<in> set (pieces_orientations ! k). \<exists>start_row start_col.
            {rc \<in> valid_cells. b rc = int k} = footprint piece start_row start_col))"

text \<open>A solver is sound when, started in the invariant, every success leaves the
  invariant in force and no valid cell empty.\<close>

definition sound :: "shape list list \<Rightarrow> cell set \<Rightarrow> solver \<Rightarrow> bool" where
  "sound pieces_orientations valid_cells rec \<longleftrightarrow>
     (\<forall>s s'. tiled pieces_orientations valid_cells (board s) (used_pieces s)
          \<and> rec s = Inr (True, s') \<longrightarrow>
        tiled pieces_orientations valid_cells (board s') (used_pieces s')
          \<and> empty_cells valid_cells (board s') = {})"

text \<open>The orientations of the eight pieces, in the order in which
  \<open>get_all_orientations\<close> adds them to its set.\<close>

definition ORIENTATION_TABLE :: "shape list list" where
  "ORIENTATION_TABLE =
    [[[(0, 0), (0, 1), (1, 0), (1, 1), (2, 0), (2, 1)],
      [(0, 0), (0, 1), (0, 2), (1, 0), (1, 1), (1, 2)]],
     [[(0, 0), (1, 0), (2, 0), (3, 0), (3, 1)], [(0, 1), (1, 1), (2, 1), (3, 0), (3, 1)],
      [(0, 0), (0, 1), (0, 2), (0, 3), (1, 0)], [(0, 0), (0, 1), (0, 2), (0, 3), (1, 3)],
      [(0, 0), (0, 1), (1, 1), (2, 1), (3, 1)], [(0, 0), (0, 1), (1, 0), (2, 0), (3, 0)],
      [(0, 3), (1, 0), (1, 1), (1, 2), (1, 3)], [(0, 0), (1, 0), (1, 1), (1, 2), (1, 3)]],
     [[(0, 0), (0, 1), (1, 1), (2, 1), (2, 2)], [(0, 1), (0, 2), (1, 1), (2, 0), (2, 1)],
      [(0, 2), (1, 0), (1, 1), (1, 2), (2, 0)], [(0, 0), (1, 0), (1, 1), (1, 2), (2, 2)]],
     [[(0, 0), (0, 2), (1, 0), (1, 1), (1, 2)], [(0, 0), (0, 1), (1, 0), (2, 0), (2, 1)],
      [(0, 0), (0, 1), (1, 1), (2, 0), (2, 1)], [(0, 0), (0, 1), (0, 2), (1, 0), (1, 2)]],
     [[(0, 1), (1, 0), (1, 1), (2, 0), (3, 0)], [(0, 0), (1, 0), (1, 1), (2, 1), (3, 1)],
      [(0, 0), (0, 1), (0, 2), (1, 2), (1, 3)], [(0, 1), (0, 2), (0, 3), (1, 0), (1, 1)],
      [(0, 1), (1, 1), (2, 0), (2, 1), (3, 0)], [(0, 0), (1, 0), (2, 0), (2, 1), (3, 1)],
      [(0, 0), (0, 1), (1, 1), (1, 2), (1, 3)], [(0, 2), (0, 3), (1, 0), (1, 1), (1, 2)]],
     [[(0, 0), (0, 1), (1, 0), (1, 1), (2, 0)], [(0, 0), (0, 1), (1, 0), (1, 1), (2, 1)],
      [(0, 0), (0, 1), (0, 2), (1, 1), (1, 2)], [(0, 0), (0, 1), (0, 2), (1, 0), (1, 1)],
      [(0, 1), (1, 0), (1, 1), (2, 0), (2, 1)], [(0, 0), (1, 0), (1, 1), (2, 0), (2, 1)],
      [(0, 0), (0, 1), (1, 0), (1, 1), (1, 2)], [(0, 1), (0, 2), (1, 0), (1, 1), (1, 2)]],
     [[(0, 1), (1, 0), (1, 1), (2, 1), (3, 1)], [(0, 0), (1, 0), (1, 1), (2, 0), (3, 0)],
      [(0, 2), (1, 0), (1, 1), (1, 2), (1, 3)], [(0, 1), (1, 0), (1, 1), (1, 2), (1, 3)],
      [(0, 0), (1, 0), (2, 0), (2, 1), (3, 0)], [(0, 1), (1, 1), (2, 0), (2, 1), (3, 1)],
      [(0, 0), (0, 1), (0, 2), (0, 3), (1, 1)], [(0, 0), (0, 1), (0, 2), (0, 3), (1, 2)]],
     [[(0, 0), (1, 0), (2, 0), (2, 1), (2, 2)], [(0, 2), (1, 2), (2, 0), (2, 1), (2, 2)],
      [(0, 0), (0, 1), (0, 2), (1, 0), (2, 0)], [(0, 0), (0, 1), (0, 2), (1, 2), (2, 2)]]]"

subsection \<open>Solutions\<close>

text \<open>
  A board is a solution for a set of playable cells when every playable cell holds the
  identifier of one of the pieces and, for every piece, the playable cells that hold
  its identifier are the footprint of one placement of the piece: one of the
  orientations that \<open>get_all_orientations\<close> returns for it, at some anchor, covering as
  many cells as the piece has offsets and no cell of another piece's placement.
\<close>

definition solution :: "(shape list \<Rightarrow> shape list) \<Rightarrow> cell set \<Rightarrow> (cell \<Rightarrow> int) \<Rightarrow> bool" where
  "solution it cells b \<longleftrightarrow>
     (\<forall>rc \<in> cells. \<exists>k < length PIECES. b rc = int k)
   \<and> (\<exists>pl :: nat \<Rightarrow> shape \<times> int \<times> int. \<forall>k < length PIECES.
         (\<exists>os. get_all_orientations it (PIECES ! k) = Inr os \<and> fst (pl k) \<in> set os)
       \<and> placement_cells (pl k) = {rc \<in> cells. b rc = int k}
       \<and> card (placement_cells (pl k)) = length (PIECES ! k)
       \<and> (\<forall>j < length PIECES. j \<noteq> k \<longrightarrow>
             placement_cells (pl j) \<inter> placement_cells (pl k) = {}))"

text \<open>A tiling for the first of January: for each piece an orientation and its anchor.\<close>

definition JANUARY_FIRST :: "(shape \<times> int \<times> int) list" where
  "JANUARY_FIRST =
    [([(0, 0), (0, 1), (0, 2), (1, 0), (1, 1), (1, 2)], 4, 4),
     ([(0, 0), (0, 1), (0, 2), (0, 3), (1, 3)], 0, 1),
     ([(0, 0), (0, 1), (1, 1), (2, 1), (2, 2)], 1, 0),
     ([(0, 0), (0, 1), (1, 1), (2, 0), (2, 1)], 4, 1),
     ([(0, 0), (1, 0), (2, 0), (2, 1), (3, 1)], 0, 5),
     ([(0, 0), (0, 1), (1, 0), (1, 1), (1, 2)], 1, 2),
     ([(0, 0), (1, 0), (2, 0), (2, 1), (3, 0)], 3, 0),
     ([(0, 0), (0, 1), (0, 2), (1, 0), (2, 0)], 3, 3)]"

text \<open>A solver stays within the call depth on states with fewer than \<open>n\<close> unused
  pieces when it does not raise \<open>RecursionError\<close> on any of them.\<close>

definition within_depth :: "nat \<Rightarrow> solver \<Rightarrow> bool" where
  "within_depth n rec \<longleftrightarrow> (\<forall>s. unused s < n \<longrightarrow> rec s \<noteq> Inl RecursionError)"

section \<open>Properties of the orientation generator\<close>

lemma andthen_Inr [simp]: "andthen (Inr x) f = f x"
  by (simp add: andthen_def)

lemma andthen_Inl [simp]: "andthen (Inl e) f = Inl e"
  by (simp add: andthen_def)

lemma andthen_eq_Inr:
  "andthen m f = Inr y \<longleftrightarrow> (\<exists>x. m = Inr x \<and> f x = Inr y)"
  by (cases m) simp_all

lemma py_min_nonempty: "xs \<noteq> [] \<Longrightarrow> py_min xs = Inr (Min (set xs))"
  by (simp add: py_min_def)

lemma normalize_piece_eq: "p \<noteq> [] \<Longrightarrow> normalize_piece p = Inr (sort (reanchor p))"
  by (simp add: normalize_piece_def py_min_nonempty reanchor_def min_row_def min_col_def)

lemma rotate_piece_eq:
  "p \<noteq> [] \<Longrightarrow> rotate_piece p = Inr (reanchor (map (\<lambda>(r, c). (c, - r)) p))"
  by (simp add: rotate_piece_def py_min_nonempty reanchor_def min_row_def min_col_def Let_def image_image)

lemma flip_piece_eq:
  "p \<noteq> [] \<Longrightarrow> flip_piece p = Inr (reanchor (map (\<lambda>(r, c). (r, - c)) p))"
  by (simp add: flip_piece_def py_min_nonempty reanchor_def min_row_def min_col_def Let_def image_image)

lemma length_reanchor [simp]: "length (reanchor p) = length p"
  by (simp add: reanchor_def)

lemma reanchor_Nil_iff [simp]: "reanchor p = [] \<longleftrightarrow> p = []"
  by (simp add: reanchor_def)

lemma Min_minus_const:
  fixes S :: "int set"
  assumes "finite S" "S \<noteq> {}"
  shows "Min ((\<lambda>x. x - a) ` S) = Min S - a"
  using Min_add_commute [of S "\<lambda>x. x" "- a"] assms by simp

lemma Max_minus_const:
  fixes S :: "int set"
  assumes "finite S" "S \<noteq> {}"
  shows "Max ((\<lambda>x. x - a) ` S) = Max S - a"
  using Max_add_commute [of S "\<lambda>x. x" "- a"] assms by simp

lemma Min_uminus:
  fixes S :: "int set"
  assumes "finite S" "S \<noteq> {}"
  shows "Min (uminus ` S) = - Max S"
proof (rule Min_eqI)
  show "finite (uminus ` S)" using assms by simp
  show "\<And>y. y \<in> uminus ` S \<Longrightarrow> - Max S \<le> y" using assms by auto
  show "- Max S \<in> uminus ` S" using assms Max_in by blast
qed

lemma Max_uminus:
  fixes S :: "int set"
  assumes "finite S" "S \<noteq> {}"
  shows "Max (uminus ` S) = - Min S"
proof (rule Max_eqI)
  show "finite (uminus ` S)" using assms by simp
  show "\<And>y. y \<in> uminus ` S \<Longrightarrow> y \<le> - Min S" using assms by auto
  show "- Min S \<in> uminus ` S" using assms Min_in by blast
qed

lemma fst_set_reanchor: "fst ` set (reanchor p) = (\<lambda>x. x - min_row p) ` fst ` set p"
  by (force simp: reanchor_def image_iff)

lemma snd_set_reanchor: "snd ` set (reanchor p) = (\<lambda>x. x - min_col p) ` snd ` set p"
  by (force simp: reanchor_def image_iff)

lemma min_row_reanchor: "p \<noteq> [] \<Longrightarrow> min_row (reanchor p) = 0"
  by (simp add: min_row_def [of "reanchor p"] fst_set_reanchor Min_minus_const) (simp add: min_row_def)

lemma min_col_reanchor: "p \<noteq> [] \<Longrightarrow> min_col (reanchor p) = 0"
  by (simp add: min_col_def [of "reanchor p"] snd_set_reanchor Min_minus_const) (simp add: min_col_def)

lemma max_row_reanchor: "p \<noteq> [] \<Longrightarrow> max_row (reanchor p) = max_row p - min_row p"
  by (simp add: max_row_def fst_set_reanchor Max_minus_const)

lemma max_col_reanchor: "p \<noteq> [] \<Longrightarrow> max_col (reanchor p) = max_col p - min_col p"
  by (simp add: max_col_def snd_set_reanchor Max_minus_const)

lemma min_row_sort [simp]: "min_row (sort p) = min_row p"
  by (simp add: min_row_def)

lemma min_col_sort [simp]: "min_col (sort p) = min_col p"
  by (simp add: min_col_def)


lemma set_set_add [simp]: "set (set_add x xs) = insert x (set xs)"
  by (auto simp: set_add_def)

lemma distinct_set_add [simp]: "distinct (set_add x xs) = distinct xs"
  by (auto simp: set_add_def)

lemma length_set_add: "length (set_add x xs) \<le> Suc (length xs)"
  by (simp add: set_add_def)

lemma set_add_nonempty [simp]: "set_add x xs \<noteq> []"
  by (auto simp: set_add_def)

subsection \<open>Quarter turns of an anchored shape\<close>

lemma Min_const_minus:
  fixes S :: "int set"
  assumes "finite S" "S \<noteq> {}"
  shows "Min ((\<lambda>x. k - x) ` S) = k - Max S"
proof (rule Min_eqI)
  show "finite ((\<lambda>x. k - x) ` S)" using assms by simp
  show "\<And>y. y \<in> (\<lambda>x. k - x) ` S \<Longrightarrow> k - Max S \<le> y" using assms by auto
  show "k - Max S \<in> (\<lambda>x. k - x) ` S" using assms Max_in by blast
qed

lemma Max_const_minus:
  fixes S :: "int set"
  assumes "finite S" "S \<noteq> {}"
  shows "Max ((\<lambda>x. k - x) ` S) = k - Min S"
proof (rule Max_eqI)
  show "finite ((\<lambda>x. k - x) ` S)" using assms by simp
  show "\<And>y. y \<in> (\<lambda>x. k - x) ` S \<Longrightarrow> y \<le> k - Min S" using assms by auto
  show "k - Min S \<in> (\<lambda>x. k - x) ` S" using assms Min_in by blast
qed

lemma quarter_turn_extent:
  assumes "p \<noteq> []" "min_row p = 0" "min_col p = 0"
  defines "q \<equiv> map (\<lambda>(r, c). (c, max_row p - r)) p"
  shows "q \<noteq> []" "min_row q = 0" "min_col q = 0" "max_row q = max_col p"
    "max_col q = max_row p"
proof -
  have fin: "finite (fst ` set p)" "fst ` set p \<noteq> {}" using assms(1) by simp_all
  have fq: "fst ` set q = snd ` set p" by (force simp: q_def image_iff)
  have sq: "snd ` set q = (\<lambda>x. max_row p - x) ` fst ` set p"
    by (force simp: q_def image_iff)
  show "q \<noteq> []" using assms(1) by (simp add: q_def)
  show "min_row q = 0" using assms(3) by (simp only: min_row_def min_col_def fq)
  show "max_row q = max_col p" by (simp only: max_row_def max_col_def fq)
  have "min_col q = max_row p - Max (fst ` set p)"
    unfolding min_col_def sq by (rule Min_const_minus [OF fin])
  then show "min_col q = 0" by (simp only: max_row_def)
  have "max_col q = max_row p - Min (fst ` set p)"
    unfolding max_col_def sq by (rule Max_const_minus [OF fin])
  then show "max_col q = max_row p" using assms(2) by (simp only: min_row_def diff_0_right)
qed

lemma rotate_normalized:
  assumes "p \<noteq> []" "min_row p = 0" "min_col p = 0"
  shows "rotate_piece p = Inr (map (\<lambda>(r, c). (c, max_row p - r)) p)"
proof -
  let ?q = "map (\<lambda>(r, c). (c, - r)) p"
  have fin: "finite (fst ` set p)" "fst ` set p \<noteq> {}" using assms(1) by simp_all
  have fq: "fst ` set ?q = snd ` set p" by (force simp: image_iff)
  have sq: "snd ` set ?q = (\<lambda>x. 0 - x) ` fst ` set p" by (force simp: image_iff)
  have a: "min_row ?q = 0" using assms(3) by (simp only: min_row_def min_col_def fq)
  have "min_col ?q = 0 - Max (fst ` set p)"
    unfolding min_col_def sq by (rule Min_const_minus [OF fin])
  then have b: "min_col ?q = - max_row p" by (simp only: max_row_def diff_0)
  have "reanchor ?q = map (\<lambda>(r, c). (c, max_row p - r)) p"
    unfolding reanchor_def a b by (simp add: split_def)
  then show ?thesis using assms(1) by (simp add: rotate_piece_eq)
qed

subsection \<open>The orientation loop\<close>

lemma well_anchored_reanchor: "p \<noteq> [] \<Longrightarrow> well_anchored (length p) (reanchor p)"
  by (simp add: well_anchored_def min_row_reanchor min_col_reanchor)

lemma well_anchored_sort [simp]: "well_anchored n (sort p) = well_anchored n p"
  by (simp add: well_anchored_def)

lemma orientations_loop_sound:
  assumes "cur \<noteq> []" "\<forall>p \<in> set acc. well_anchored (length cur) p"
  shows "\<exists>os. orientations_loop n acc cur = Inr os
           \<and> (\<forall>p \<in> set os. well_anchored (length cur) p)"
  using assms
proof (induction n arbitrary: acc cur)
  case 0
  then show ?case by simp
next
  case (Suc n)
  let ?f = "reanchor (map (\<lambda>(r, c). (r, - c)) cur)"
  let ?r = "reanchor (map (\<lambda>(r, c). (c, - r)) cur)"
  have f: "?f \<noteq> []" "length ?f = length cur" using Suc.prems(1) by simp_all
  have r: "?r \<noteq> []" "length ?r = length cur" using Suc.prems(1) by simp_all
  have a: "well_anchored (length cur) (sort (reanchor cur))"
    using well_anchored_reanchor [OF Suc.prems(1)] by simp
  have b: "well_anchored (length cur) (sort (reanchor ?f))"
    using well_anchored_reanchor [OF f(1)] by (simp add: f(2))
  have "\<forall>p \<in> set (set_add (sort (reanchor ?f)) (set_add (sort (reanchor cur)) acc)).
          well_anchored (length ?r) p"
    using a b Suc.prems(2) by (simp add: r(2))
  from Suc.IH [OF r(1) this] show ?case
    using Suc.prems(1) f(1)
    by (simp add: normalize_piece_eq flip_piece_eq rotate_piece_eq r(2))
qed

lemma orientations_loop_count:
  assumes "cur \<noteq> []" "distinct acc"
  shows "\<exists>os. orientations_loop n acc cur = Inr os \<and> distinct os
           \<and> length os \<le> length acc + 2 * n \<and> (0 < n \<longrightarrow> os \<noteq> [])
           \<and> set acc \<subseteq> set os"
  using assms
proof (induction n arbitrary: acc cur)
  case 0
  then show ?case by simp
next
  case (Suc n)
  let ?f = "reanchor (map (\<lambda>(r, c). (r, - c)) cur)"
  let ?r = "reanchor (map (\<lambda>(r, c). (c, - r)) cur)"
  let ?acc = "set_add (sort (reanchor ?f)) (set_add (sort (reanchor cur)) acc)"
  have f: "?f \<noteq> []" using Suc.prems(1) by simp
  have r: "?r \<noteq> []" using Suc.prems(1) by simp
  have d: "distinct ?acc" using Suc.prems(2) by simp
  have l: "length ?acc \<le> length acc + 2"
    using length_set_add [of "sort (reanchor ?f)" "set_add (sort (reanchor cur)) acc"]
      length_set_add [of "sort (reanchor cur)" acc] by linarith
  from Suc.IH [OF r d] obtain os where os: "orientations_loop n ?acc ?r = Inr os"
    "distinct os" "length os \<le> length ?acc + 2 * n" "set ?acc \<subseteq> set os"
    by blast
  have "os \<noteq> []" using os(4) by auto
  moreover have "set acc \<subseteq> set os" using os(4) by auto
  moreover have "length os \<le> length acc + 2 * Suc n" using os(3) l by simp
  ultimately show ?case
    using Suc.prems(1) f os(1,2)
    by (simp add: normalize_piece_eq flip_piece_eq rotate_piece_eq)
qed


subsection \<open>Orientations as congruence classes\<close>

lemma translate_image_image:
  "translate a ` translate b ` S = translate (fst a + fst b, snd a + snd b) ` S"
  by (force simp: translate_def image_iff split_def)

lemma rot90_translate: "rot90 ` translate t ` S = translate (rot90 t) ` rot90 ` S"
  by (force simp: translate_def rot90_def image_iff split_def)

lemma mirror_translate: "mirror ` translate t ` S = translate (mirror t) ` mirror ` S"
  by (force simp: translate_def mirror_def image_iff split_def)

lemma rot90_pow_translate:
  "(rot90 ^^ k) ` translate t ` S = translate ((rot90 ^^ k) t) ` (rot90 ^^ k) ` S"
proof (induction k arbitrary: t S)
  case 0
  then show ?case by simp
next
  case (Suc k)
  have "(rot90 ^^ Suc k) ` translate t ` S = rot90 ` (rot90 ^^ k) ` translate t ` S"
    by (simp add: image_comp)
  also have "\<dots> = translate (rot90 ((rot90 ^^ k) t)) ` rot90 ` (rot90 ^^ k) ` S"
    by (simp only: Suc.IH rot90_translate)
  finally show ?case by (simp add: image_comp)
qed

lemma set_reanchor: "set (reanchor p) = translate (- min_row p, - min_col p) ` set p"
  by (force simp: reanchor_def translate_def image_iff split_def)

lemma inj_shift: "inj (\<lambda>(r::int, c::int). (r - a, c - b))"
  by (auto simp: inj_on_def)

lemma distinct_reanchor [simp]: "distinct (reanchor p) = distinct p"
  unfolding reanchor_def by (simp add: distinct_map inj_on_def split_def prod_eq_iff)

lemma distinct_map_rot [simp]: "distinct (map (\<lambda>(r::int, c::int). (c, - r)) p) = distinct p"
  by (simp add: distinct_map inj_on_def split_def prod_eq_iff)

lemma distinct_map_flip [simp]: "distinct (map (\<lambda>(r::int, c::int). (r, - c)) p) = distinct p"
  by (simp add: distinct_map inj_on_def split_def prod_eq_iff)

lemma fst_translate: "fst ` translate t ` S = (\<lambda>x. x + fst t) ` fst ` S"
  by (force simp: translate_def image_iff split_def)

lemma snd_translate: "snd ` translate t ` S = (\<lambda>x. x + snd t) ` snd ` S"
  by (force simp: translate_def image_iff split_def)

lemma canon_translate:
  assumes "finite S" "S \<noteq> {}"
  shows "canon (translate t ` S) = canon S"
proof -
  have a: "Min (fst ` translate t ` S) = Min (fst ` S) + fst t"
    unfolding fst_translate using assms Min_add_commute [of "fst ` S" "\<lambda>x. x" "fst t"] by simp
  have b: "Min (snd ` translate t ` S) = Min (snd ` S) + snd t"
    unfolding snd_translate using assms Min_add_commute [of "snd ` S" "\<lambda>x. x" "snd t"] by simp
  have "(\<lambda>(r, c). (r - (Min (fst ` S) + fst t), c - (Min (snd ` S) + snd t))) ` translate t ` S
      = (\<lambda>(r, c). (r - Min (fst ` S), c - Min (snd ` S))) ` S"
    by (force simp: translate_def image_iff split_def)
  then show ?thesis by (simp only: canon_def a b)
qed

lemma sort_reanchor_canon:
  assumes "distinct p"
  shows "sort (reanchor p) = canon (set p)"
proof -
  have "set (reanchor p) = (\<lambda>(r, c). (r - Min (fst ` set p), c - Min (snd ` set p))) ` set p"
    by (simp add: reanchor_def min_row_def min_col_def)
  then have "canon (set p) = sorted_list_of_set (set (reanchor p))"
    by (simp only: canon_def)
  also have "\<dots> = sort (remdups (reanchor p))"
    by (rule sorted_list_of_set_sort_remdups)
  finally show ?thesis using assms by (simp add: distinct_remdups_id)
qed

lemma set_map_rot: "set (map (\<lambda>(r, c). (c, - r)) p) = rot90 ` set p"
  by (simp add: rot90_def)

lemma set_map_flip: "set (map (\<lambda>(r, c). (r, - c)) p) = mirror ` set p"
  by (simp add: mirror_def)

lemma UN_lessThan_Suc_shift: "(\<Union>k<Suc n. F k) = F 0 \<union> (\<Union>k<n. F (Suc k))"
  by (simp add: lessThan_Suc_eq_insert_0 image_image)

lemma orientations_loop_set:
  assumes "cur \<noteq> []" "distinct cur"
  shows "\<exists>os. orientations_loop n acc cur = Inr os
           \<and> set os = set acc \<union>
               (\<Union>k<n. {canon ((rot90 ^^ k) ` set cur), canon (mirror ` (rot90 ^^ k) ` set cur)})"
  using assms
proof (induction n arbitrary: acc cur)
  case 0
  then show ?case by simp
next
  case (Suc n)
  let ?f = "reanchor (map (\<lambda>(r, c). (r, - c)) cur)"
  let ?r = "reanchor (map (\<lambda>(r, c). (c, - r)) cur)"
  let ?acc = "set_add (sort (reanchor ?f)) (set_add (sort (reanchor cur)) acc)"
  have fin: "finite (set cur)" "set cur \<noteq> {}" using Suc.prems(1) by simp_all
  have f: "?f \<noteq> []" "distinct ?f" using Suc.prems by simp_all
  have r: "?r \<noteq> []" "distinct ?r" using Suc.prems by simp_all
  have plain: "sort (reanchor cur) = canon (set cur)"
    using Suc.prems(2) by (rule sort_reanchor_canon)
  have mirrored: "sort (reanchor ?f) = canon (mirror ` set cur)"
    using fin by (simp add: sort_reanchor_canon [OF f(2)] set_reanchor canon_translate mirror_def)
  obtain t where t: "set ?r = translate t ` rot90 ` set cur"
    by (simp add: set_reanchor rot90_def)
  have A: "canon ((rot90 ^^ k) ` set ?r) = canon ((rot90 ^^ Suc k) ` set cur)" for k
  proof -
    have "(rot90 ^^ k) ` set ?r = translate ((rot90 ^^ k) t) ` (rot90 ^^ k) ` rot90 ` set cur"
      by (simp only: t rot90_pow_translate)
    also have "(rot90 ^^ k) ` rot90 ` set cur = (rot90 ^^ Suc k) ` set cur"
      by (simp add: image_comp funpow_swap1)
    finally show ?thesis using fin by (simp only: canon_translate finite_imageI image_is_empty not_False_eq_True)
  qed
  have B: "canon (mirror ` (rot90 ^^ k) ` set ?r) = canon (mirror ` (rot90 ^^ Suc k) ` set cur)" for k
  proof -
    have "(rot90 ^^ k) ` set ?r = translate ((rot90 ^^ k) t) ` (rot90 ^^ k) ` rot90 ` set cur"
      by (simp only: t rot90_pow_translate)
    also have "(rot90 ^^ k) ` rot90 ` set cur = (rot90 ^^ Suc k) ` set cur"
      by (simp add: image_comp funpow_swap1)
    finally have "mirror ` (rot90 ^^ k) ` set ?r
        = translate (mirror ((rot90 ^^ k) t)) ` mirror ` (rot90 ^^ Suc k) ` set cur"
      by (simp only: mirror_translate)
    then show ?thesis using fin by (simp only: canon_translate finite_imageI image_is_empty not_False_eq_True)
  qed
  from Suc.IH [OF r, of ?acc] obtain os where os: "orientations_loop n ?acc ?r = Inr os"
    "set os = set ?acc \<union>
       (\<Union>k<n. {canon ((rot90 ^^ k) ` set ?r), canon (mirror ` (rot90 ^^ k) ` set ?r)})"
    by blast
  have "set os = set acc \<union>
      (\<Union>k<Suc n. {canon ((rot90 ^^ k) ` set cur), canon (mirror ` (rot90 ^^ k) ` set cur)})"
    unfolding os(2) A B UN_lessThan_Suc_shift [where n = n] by (auto simp: plain mirrored)
  then show ?case
    using Suc.prems(1) f(1) os(1)
    by (simp add: normalize_piece_eq flip_piece_eq rotate_piece_eq)
qed


lemma set_iteration_id: "set_iteration id"
  by (simp add: set_iteration_def)

lemma set_iteration_length:
  assumes "set_iteration it" "distinct xs"
  shows "length (it xs) = length xs"
proof -
  have "distinct (it xs)" "set (it xs) = set xs"
    using assms by (simp_all add: set_iteration_def)
  then show ?thesis using assms(2) by (metis distinct_card)
qed

lemma get_all_orientations_result:
  assumes "piece \<noteq> []" "set_iteration it"
  shows "\<exists>os. orientations_loop 4 [] piece = Inr os
           \<and> get_all_orientations it piece = Inr (it os)
           \<and> distinct os \<and> os \<noteq> [] \<and> length os \<le> 8
           \<and> distinct (it os) \<and> set (it os) = set os \<and> length (it os) = length os
           \<and> (\<forall>p \<in> set os. well_anchored (length piece) p)"
proof -
  obtain os where os: "orientations_loop 4 [] piece = Inr os" "distinct os"
      "length os \<le> length ([] :: shape list) + 2 * 4" "os \<noteq> []"
    using orientations_loop_count [OF assms(1), of "[]" 4] by auto
  have "\<forall>p \<in> set os. well_anchored (length piece) p"
    using orientations_loop_sound [OF assms(1), of "[]" 4] os(1) by auto
  moreover have "distinct (it os)" "set (it os) = set os"
    using assms(2) os(2) by (simp_all add: set_iteration_def)
  moreover have "length (it os) = length os"
    using assms(2) os(2) by (rule set_iteration_length)
  ultimately show ?thesis
    using os by (simp add: get_all_orientations_def)
qed

lemma PIECES_nonempty: "piece \<in> set PIECES \<Longrightarrow> piece \<noteq> []"
  by (auto simp: PIECES_def)

text \<open>
  Claim C4. For every piece shape in \<open>PIECES\<close>, every orientation returned by
  \<open>get_all_orientations\<close> has minimum row 0 and minimum column 0 and has as many
  offset cells as the input shape. This holds for every iteration order of the set of
  orientations.
\<close>


theorem orientations_are_anchored:
  assumes "piece \<in> set PIECES" "set_iteration it"
  shows "\<exists>os. get_all_orientations it piece = Inr os
           \<and> (\<forall>p \<in> set os. min_row p = 0 \<and> min_col p = 0 \<and> length p = length piece)"
  using get_all_orientations_result [OF PIECES_nonempty [OF assms(1)] assms(2)]
  by (auto simp: well_anchored_def)

theorem orientations_are_anchored_witness:
  "PIECES ! 1 \<in> set PIECES \<and> set_iteration (id :: shape list \<Rightarrow> shape list)
   \<and> (\<exists>os. get_all_orientations id (PIECES ! 1) = Inr os
           \<and> (\<forall>p \<in> set os. min_row p = 0 \<and> min_col p = 0 \<and> length p = length (PIECES ! 1)))"
proof -
  have a: "PIECES ! 1 \<in> set PIECES" by (simp add: PIECES_def)
  show ?thesis
    using a set_iteration_id orientations_are_anchored [OF a set_iteration_id] by blast
qed

subsection \<open>Number of orientations\<close>

lemma symmetric_orientations_fewer:
  assumes "piece \<noteq> []" "distinct piece" "has_symmetry piece"
    and os: "orientations_loop 4 [] piece = Inr os" "distinct os"
  shows "length os < 8"
proof -
  define A where "A k = canon ((rot90 ^^ k) ` set piece)" for k
  define B where "B k = canon (mirror ` (rot90 ^^ k) ` set piece)" for k
  have fin: "finite (set piece)" "set piece \<noteq> {}" using assms(1) by simp_all
  have "set os = (\<Union>k<4. {A k, B k})"
    using orientations_loop_set [OF assms(1,2), of 4 "[]"] os(1) by (simp add: A_def B_def)
  moreover have "{..<4::nat} = {0, 1, 2, 3}" by auto
  ultimately have S: "set os = {A 0, B 0, A 1, B 1, A 2, B 2, A 3, B 3}" by auto
  from assms(3) obtain k m t where k: "k < 4" "k \<noteq> 0 \<or> m"
    and t: "translate t ` (if m then mirror else id) ` (rot90 ^^ k) ` set piece = set piece"
    unfolding has_symmetry_def by blast
  have "canon (set piece) = canon ((if m then mirror else id) ` (rot90 ^^ k) ` set piece)"
    using canon_translate [of "(if m then mirror else id) ` (rot90 ^^ k) ` set piece" t] fin
    by (simp add: t)
  then have "A 0 = (if m then B k else A k)"
    by (simp add: A_def B_def)
  moreover have "k \<in> {0, 1, 2, 3}" using k(1) by auto
  ultimately have "A 0 \<in> set [B 0, A 1, B 1, A 2, B 2, A 3, B 3]"
    using k(2) by (cases m) auto
  then have "set os = set [B 0, A 1, B 1, A 2, B 2, A 3, B 3]"
    unfolding S by auto
  then have "card (set os) \<le> length [B 0, A 1, B 1, A 2, B 2, A 3, B 3]"
    by (simp only: card_length)
  then show ?thesis using os(2) by (simp add: distinct_card)
qed

lemma piece0_has_symmetry: "has_symmetry (PIECES ! 0)"
proof -
  have "translate (0, 1) ` mirror ` set (PIECES ! 0) = set (PIECES ! 0)"
    by (simp add: PIECES_def translate_def mirror_def) blast
  then have "(0::nat) < 4 \<and> (0 \<noteq> (0::nat) \<or> True) \<and>
      translate (0, 1) ` (if True then mirror else id) ` (rot90 ^^ 0) ` set (PIECES ! 0)
        = set (PIECES ! 0)"
    by simp
  then show ?thesis unfolding has_symmetry_def by blast
qed

lemma orientation_count_aux:
  assumes "piece \<noteq> []" "set_iteration it"
  shows "\<exists>os. get_all_orientations it piece = Inr os \<and> 1 \<le> length os \<and> length os \<le> 8
           \<and> distinct os \<and> (\<forall>p \<in> set os. min_row p = 0 \<and> min_col p = 0)
           \<and> (distinct piece \<and> has_symmetry piece \<longrightarrow> length os < 8)"
proof -
  from get_all_orientations_result [OF assms] obtain os where
    os: "orientations_loop 4 [] piece = Inr os" "get_all_orientations it piece = Inr (it os)"
      "distinct os" "os \<noteq> []" "length os \<le> 8" "distinct (it os)" "set (it os) = set os"
      "length (it os) = length os" "\<forall>p \<in> set os. well_anchored (length piece) p"
    by blast
  have "1 \<le> length os" using os(4) by (cases os) simp_all
  moreover have "distinct piece \<and> has_symmetry piece \<longrightarrow> length os < 8"
    using symmetric_orientations_fewer [OF assms(1) _ _ os(1,3)] by blast
  ultimately show ?thesis
    using os by (auto simp: well_anchored_def)
qed

text \<open>
  Claim C5. For every (non-empty) piece shape, \<open>get_all_orientations\<close> returns between
  1 and 8 pairwise distinct anchored shapes; a shape of distinct offsets that has a
  symmetry yields strictly fewer than 8; and piece 0, the 2 x 3 rectangle, yields
  strictly fewer than 8.
\<close>

theorem orientation_count:
  assumes "piece \<noteq> []" "set_iteration it"
  shows "(\<exists>os. get_all_orientations it piece = Inr os \<and> 1 \<le> length os \<and> length os \<le> 8
            \<and> distinct os \<and> (\<forall>p \<in> set os. min_row p = 0 \<and> min_col p = 0)
            \<and> (distinct piece \<and> has_symmetry piece \<longrightarrow> length os < 8))
       \<and> (\<exists>os. get_all_orientations it (PIECES ! 0) = Inr os \<and> length os < 8)"
proof -
  have p0: "PIECES ! 0 \<noteq> []" "distinct (PIECES ! 0)" by (simp_all add: PIECES_def)
  show ?thesis
    using orientation_count_aux [OF assms] orientation_count_aux [OF p0(1) assms(2)]
      p0(2) piece0_has_symmetry by blast
qed

theorem orientation_count_witness:
  "PIECES ! 0 \<noteq> [] \<and> set_iteration (id :: shape list \<Rightarrow> shape list)
   \<and> distinct (PIECES ! 0) \<and> has_symmetry (PIECES ! 0)
   \<and> (\<exists>os. get_all_orientations id (PIECES ! 0) = Inr os \<and> 1 \<le> length os
          \<and> length os < 8 \<and> distinct os)"
proof -
  have p0: "PIECES ! 0 \<noteq> []" "distinct (PIECES ! 0)" by (simp_all add: PIECES_def)
  show ?thesis
    using p0 set_iteration_id piece0_has_symmetry
      orientation_count [OF p0(1) set_iteration_id] by blast
qed

subsection \<open>Four quarter turns\<close>

text \<open>
  Claim C6. For every non-empty shape whose minimum row and minimum column are both 0,
  applying \<open>rotate_piece\<close> four times in succession returns the original shape.
\<close>

theorem rotate_piece_four_times:
  assumes "p \<noteq> []" "min_row p = 0" "min_col p = 0"
  shows "andthen (rotate_piece p) (\<lambda>p1. andthen (rotate_piece p1) (\<lambda>p2.
           andthen (rotate_piece p2) rotate_piece)) = Inr p"
proof -
  define p1 where "p1 = map (\<lambda>(r, c). (c, max_row p - r)) p"
  define p2 where "p2 = map (\<lambda>(r, c). (c, max_row p1 - r)) p1"
  define p3 where "p3 = map (\<lambda>(r, c). (c, max_row p2 - r)) p2"
  note e1 = quarter_turn_extent [OF assms, folded p1_def]
  note e2 = quarter_turn_extent [OF e1(1-3), folded p2_def]
  note e3 = quarter_turn_extent [OF e2(1-3), folded p3_def]
  have r1: "rotate_piece p = Inr p1" using rotate_normalized [OF assms] by (simp only: p1_def)
  have r2: "rotate_piece p1 = Inr p2" using rotate_normalized [OF e1(1-3)] by (simp only: p2_def)
  have r3: "rotate_piece p2 = Inr p3" using rotate_normalized [OF e2(1-3)] by (simp only: p3_def)
  have r4: "rotate_piece p3 = Inr (map (\<lambda>(r, c). (c, max_row p3 - r)) p3)"
    using rotate_normalized [OF e3(1-3)] .
  have m1: "max_row p1 = max_col p" by (rule e1(4))
  have m2: "max_row p2 = max_row p" using e2(4) e1(5) by simp
  have m3: "max_row p3 = max_col p" using e3(4) e2(5) e1(4) by simp
  have p2': "p2 = map (\<lambda>(r, c). (c, max_col p - r)) p1" by (simp only: p2_def m1)
  have p3': "p3 = map (\<lambda>(r, c). (c, max_row p - r)) p2" by (simp only: p3_def m2)
  have "map (\<lambda>(r, c). (c, max_col p - r)) p3 = map (\<lambda>x. x) p"
    unfolding p3' p2' p1_def by (simp add: split_def comp_def)
  then show ?thesis by (simp add: r1 r2 r3 r4 m3)
qed

theorem rotate_piece_four_times_witness:
  "PIECES ! 4 \<noteq> [] \<and> min_row (PIECES ! 4) = 0 \<and> min_col (PIECES ! 4) = 0
   \<and> andthen (rotate_piece (PIECES ! 4)) (\<lambda>p1. andthen (rotate_piece p1) (\<lambda>p2.
           andthen (rotate_piece p2) rotate_piece)) = Inr (PIECES ! 4)"
proof -
  have a: "PIECES ! 4 \<noteq> []" "min_row (PIECES ! 4) = 0" "min_col (PIECES ! 4) = 0"
    by (simp_all add: PIECES_def min_row_def min_col_def)
  show ?thesis using a rotate_piece_four_times [OF a] by blast
qed

section \<open>Properties of the search\<close>

subsection \<open>Array indices and the access log\<close>

lemma np_index_on_board: "on_board rc \<Longrightarrow> np_index rc = Inr rc"
  by (cases rc) (simp add: np_index_def on_board_def BOARD_ROWS_def BOARD_COLS_def)

lemma np_index_Inr_on_board: "np_index rc = Inr i \<Longrightarrow> on_board i"
  by (cases rc)
    (auto simp: np_index_def on_board_def BOARD_ROWS_def BOARD_COLS_def Let_def split: if_splits)

lemma np_index_error: "np_index rc = Inl e \<Longrightarrow> e = IndexError"
  by (cases rc) (auto simp: np_index_def Let_def split: if_splits)

lemma board_after_append:
  "board_after (new2 @ new1) b = board_after new2 (board_after new1 b)"
proof (induction new2)
  case Nil
  then show ?case by simp
next
  case (Cons a new2)
  then show ?case by (cases a) (auto simp: fun_upd_def split: sum.splits)
qed

lemma continues_refl [simp]: "continues cells s s"
  by (simp add: continues_def)

lemma continues_trans:
  assumes "continues cells s1 s2" "continues cells s2 s3"
  shows "continues cells s1 s3"
proof -
  from assms(1) obtain n1 where n1: "accesses s2 = n1 @ accesses s1"
    "board s2 = board_after n1 (board s1)" "\<forall>a \<in> set n1. access_cell a \<in> cells"
    unfolding continues_def by blast
  from assms(2) obtain n2 where n2: "accesses s3 = n2 @ accesses s2"
    "board s3 = board_after n2 (board s2)" "\<forall>a \<in> set n2. access_cell a \<in> cells"
    unfolding continues_def by blast
  have "accesses s3 = (n2 @ n1) @ accesses s1" using n1(1) n2(1) by simp
  moreover have "board s3 = board_after (n2 @ n1) (board s1)"
    using n1(2) n2(2) by (simp add: board_after_append)
  moreover have "\<forall>a \<in> set (n2 @ n1). access_cell a \<in> cells" using n1(3) n2(3) by auto
  ultimately show ?thesis unfolding continues_def by blast
qed

lemma continues_used_update [simp]:
  "continues cells s (s'\<lparr>used_pieces := u\<rparr>) = continues cells s s'"
  "continues cells (s\<lparr>used_pieces := u\<rparr>) s' = continues cells s s'"
  by (simp_all add: continues_def)

lemma continues_mono: "continues A s s' \<Longrightarrow> A \<subseteq> B \<Longrightarrow> continues B s s'"
  unfolding continues_def by blast

lemma np_get_Inr:
  "np_get s rc = Inr (v, s') \<longleftrightarrow>
     (\<exists>i. np_index rc = Inr i \<and> v = board s i \<and> s' = s\<lparr>accesses := Rd rc # accesses s\<rparr>)"
  by (auto simp: np_get_def andthen_eq_Inr)

lemma np_set_Inr:
  "np_set s rc v = Inr s' \<longleftrightarrow>
     (\<exists>i. np_index rc = Inr i
        \<and> s' = s\<lparr>board := (board s)(i := v), accesses := Wr rc v # accesses s\<rparr>)"
  by (auto simp: np_set_def andthen_eq_Inr)

lemma continues_read: "rc \<in> cells \<Longrightarrow> continues cells s (s\<lparr>accesses := Rd rc # accesses s\<rparr>)"
  unfolding continues_def by (intro exI [of _ "[Rd rc]"]) simp

lemma continues_write:
  "rc \<in> cells \<Longrightarrow> np_index rc = Inr i \<Longrightarrow>
   continues cells s (s\<lparr>board := (board s)(i := v), accesses := Wr rc v # accesses s\<rparr>)"
  unfolding continues_def by (intro exI [of _ "[Wr rc v]"]) simp

subsection \<open>Feasibility check\<close>

lemma can_place_piece_result:
  assumes "can_place_piece s piece start_row start_col valid_cells = Inr (ok, s')"
  shows "board s' = board s \<and> used_pieces s' = used_pieces s \<and> continues valid_cells s s'
    \<and> (ok \<longrightarrow> footprint piece start_row start_col \<subseteq> valid_cells
          \<and> (\<forall>rc \<in> footprint piece start_row start_col. \<exists>i. np_index rc = Inr i \<and> board s i = - 1))"
  using assms
proof (induction piece arbitrary: s)
  case Nil
  then show ?case by (simp add: footprint_def)
next
  case (Cons d piece)
  obtain dr dc where d: "d = (dr, dc)" by (cases d)
  let ?rc = "(start_row + dr, start_col + dc)"
  show ?case
  proof (cases "?rc \<in> valid_cells")
    case False
    with Cons.prems show ?thesis by (auto simp: d)
  next
    case True
    with Cons.prems obtain v s1 where g: "np_get s ?rc = Inr (v, s1)"
      and rest: "(if v \<noteq> - 1 then Inr (False, s1)
          else can_place_piece s1 piece start_row start_col valid_cells) = Inr (ok, s')"
      by (auto simp: d andthen_eq_Inr)
    from g obtain i where i: "np_index ?rc = Inr i" "v = board s i"
      "s1 = s\<lparr>accesses := Rd ?rc # accesses s\<rparr>"
      by (auto simp: np_get_Inr)
    have c1: "continues valid_cells s s1" using True i(3) by (simp add: continues_read)
    show ?thesis
    proof (cases "v = - 1")
      case False
      with rest have "ok = False" "s' = s1" by simp_all
      then show ?thesis using c1 i(3) by simp
    next
      case v: True
      with rest have r: "can_place_piece s1 piece start_row start_col valid_cells = Inr (ok, s')"
        by simp
      note ih = Cons.IH [OF r]
      have b1: "board s1 = board s" using i(3) by simp
      have "continues valid_cells s s'" using c1 ih continues_trans by blast
      moreover have "board s' = board s" "used_pieces s' = used_pieces s"
        using ih i(3) by simp_all
      moreover have fp: "footprint (d # piece) start_row start_col
          = insert ?rc (footprint piece start_row start_col)"
        by (simp add: footprint_def d)
      moreover have "footprint (d # piece) start_row start_col \<subseteq> valid_cells" if ok
        using that ih True unfolding fp by blast
      moreover have "\<exists>j. np_index rc = Inr j \<and> board s j = - 1"
        if ok "rc \<in> footprint (d # piece) start_row start_col" for rc
      proof (cases "rc = ?rc")
        case True
        then show ?thesis using i(1,2) v by blast
      next
        case False
        then have "rc \<in> footprint piece start_row start_col" using that(2) unfolding fp by blast
        then show ?thesis using ih that(1) unfolding b1 by blast
      qed
      ultimately show ?thesis by blast
    qed
  qed
qed


subsection \<open>Placing and removing\<close>

lemma elements_Cons:
  assumes "np_index (start_row + dr, start_col + dc) = Inr i"
  shows "elements ((dr, dc) # piece) start_row start_col
           = insert i (elements piece start_row start_col)"
  using assms by (auto simp: elements_def footprint_def)

lemma remove_piece_eq_place:
  "remove_piece s piece start_row start_col = place_piece s piece start_row start_col (- 1)"
proof (induction piece arbitrary: s)
  case Nil
  then show ?case by simp
next
  case (Cons d piece)
  then show ?case by (cases d) simp
qed

lemma place_piece_result:
  assumes "place_piece s piece start_row start_col v = Inr s'"
  shows "used_pieces s' = used_pieces s
    \<and> board s' = (\<lambda>i. if i \<in> elements piece start_row start_col then v else board s i)
    \<and> (footprint piece start_row start_col \<subseteq> cells \<longrightarrow> continues cells s s')"
  using assms
proof (induction piece arbitrary: s)
  case Nil
  then show ?case by (simp add: elements_def footprint_def)
next
  case (Cons d piece)
  obtain dr dc where d: "d = (dr, dc)" by (cases d)
  let ?rc = "(start_row + dr, start_col + dc)"
  from Cons.prems obtain s1 where w: "np_set s ?rc v = Inr s1"
    and r: "place_piece s1 piece start_row start_col v = Inr s'"
    by (auto simp: d andthen_eq_Inr)
  from w obtain i where i: "np_index ?rc = Inr i"
    "s1 = s\<lparr>board := (board s)(i := v), accesses := Wr ?rc v # accesses s\<rparr>"
    by (auto simp: np_set_Inr)
  note ih = Cons.IH [OF r]
  have fp: "footprint (d # piece) start_row start_col
      = insert ?rc (footprint piece start_row start_col)"
    by (simp add: footprint_def d)
  have el: "elements (d # piece) start_row start_col = insert i (elements piece start_row start_col)"
    unfolding d using i(1) by (rule elements_Cons)
  have "used_pieces s' = used_pieces s" using ih i(2) by simp
  moreover have "board s' = (\<lambda>j. if j \<in> elements (d # piece) start_row start_col then v else board s j)"
    unfolding el using ih i(2) by auto
  moreover have "continues cells s s'" if "footprint (d # piece) start_row start_col \<subseteq> cells"
  proof -
    have "continues cells s s1" using that i unfolding fp by (simp add: continues_write)
    moreover have "continues cells s1 s'" using that ih unfolding fp by blast
    ultimately show ?thesis by (rule continues_trans)
  qed
  ultimately show ?case by blast
qed

lemma place_piece_error: "place_piece s piece start_row start_col v = Inl e \<Longrightarrow> e = IndexError"
proof (induction piece arbitrary: s)
  case Nil
  then show ?case by simp
next
  case (Cons d piece)
  then show ?case
    by (cases d) (auto simp: andthen_def np_set_def dest: np_index_error split: sum.splits)
qed

lemma can_place_piece_error:
  "can_place_piece s piece start_row start_col valid_cells = Inl e \<Longrightarrow> e = IndexError"
proof (induction piece arbitrary: s)
  case Nil
  then show ?case by simp
next
  case (Cons d piece)
  then show ?case
    by (cases d)
      (auto simp: andthen_def np_get_def Let_def dest: np_index_error split: sum.splits if_splits)
qed

subsection \<open>First empty cell\<close>

lemma first_empty_from_result:
  assumes "first_empty_from s valid_cells cells = Inr (r, s')"
  shows "board s' = board s \<and> used_pieces s' = used_pieces s \<and> continues valid_cells s s'
    \<and> (case r of
          None \<Rightarrow> \<forall>rc \<in> set cells \<inter> valid_cells. \<exists>i. np_index rc = Inr i \<and> board s i \<noteq> - 1
        | Some rc \<Rightarrow> rc \<in> set cells \<inter> valid_cells \<and> (\<exists>i. np_index rc = Inr i \<and> board s i = - 1))"
  using assms
proof (induction cells arbitrary: s)
  case Nil
  then show ?case by auto
next
  case (Cons rc cells)
  show ?case
  proof (cases "rc \<in> valid_cells")
    case False
    with Cons.prems have "first_empty_from s valid_cells cells = Inr (r, s')" by simp
    from Cons.IH [OF this] False show ?thesis by (auto split: option.splits)
  next
    case True
    with Cons.prems obtain v s1 where g: "np_get s rc = Inr (v, s1)"
      and rest: "(if v = - 1 then Inr (Some rc, s1)
          else first_empty_from s1 valid_cells cells) = Inr (r, s')"
      by (auto simp: andthen_eq_Inr)
    from g obtain i where i: "np_index rc = Inr i" "v = board s i"
      "s1 = s\<lparr>accesses := Rd rc # accesses s\<rparr>"
      by (auto simp: np_get_Inr)
    have c1: "continues valid_cells s s1" using True i(3) by (simp add: continues_read)
    show ?thesis
    proof (cases "v = - 1")
      case v: True
      with rest have "r = Some rc" "s' = s1" by simp_all
      then show ?thesis using c1 i True v by auto
    next
      case v: False
      with rest have "first_empty_from s1 valid_cells cells = Inr (r, s')" by simp
      note ih = Cons.IH [OF this]
      have b1: "board s1 = board s" using i(3) by simp
      have "continues valid_cells s s'" using c1 ih continues_trans by blast
      moreover have "board s' = board s" "used_pieces s' = used_pieces s"
        using ih i(3) by simp_all
      moreover have "\<exists>j. np_index x = Inr j \<and> board s j \<noteq> - 1"
        if "r = None" "x \<in> set (rc # cells) \<inter> valid_cells" for x
      proof (cases "x = rc")
        case True
        then show ?thesis using i(1,2) v by blast
      next
        case False
        then have "x \<in> set cells \<inter> valid_cells" using that(2) by auto
        then show ?thesis using ih that(1) unfolding b1 by auto
      qed
      moreover have "x \<in> set (rc # cells) \<inter> valid_cells \<and> (\<exists>j. np_index x = Inr j \<and> board s j = - 1)"
        if "r = Some x" for x
        using ih that unfolding b1 by auto
      ultimately show ?thesis by (cases r) auto
    qed
  qed
qed

lemma first_empty_from_total:
  assumes "\<forall>rc \<in> set cells. on_board rc"
  shows "\<exists>r s'. first_empty_from s valid_cells cells = Inr (r, s')"
  using assms
proof (induction cells arbitrary: s)
  case Nil
  then show ?case by simp
next
  case (Cons rc cells)
  then have "np_index rc = Inr rc" by (simp add: np_index_on_board)
  then show ?case using Cons by (simp add: np_get_def)
qed

lemma set_py_range: "set (py_range n) = {0..<n}"
  by (auto simp: py_range_def)

lemma all_cells_on_board:
  "set [(r, c). r \<leftarrow> py_range BOARD_ROWS, c \<leftarrow> py_range BOARD_COLS] = {rc. on_board rc}"
  by (auto simp: set_py_range on_board_def)

lemma find_first_empty_total: "\<exists>r s'. find_first_empty s valid_cells = Inr (r, s')"
  unfolding find_first_empty_def
  by (rule first_empty_from_total) (simp only: all_cells_on_board, simp)

lemma find_first_empty_result:
  assumes "find_first_empty s valid_cells = Inr (r, s')"
  shows "board s' = board s \<and> used_pieces s' = used_pieces s \<and> continues valid_cells s s'
    \<and> (case r of
          None \<Rightarrow> \<forall>rc \<in> valid_cells. on_board rc \<longrightarrow> board s rc \<noteq> - 1
        | Some rc \<Rightarrow> rc \<in> valid_cells \<and> on_board rc \<and> board s rc = - 1)"
proof -
  note r = first_empty_from_result [OF assms [unfolded find_first_empty_def], unfolded all_cells_on_board]
  show ?thesis
  proof (cases r)
    case None
    then show ?thesis using r by (auto simp: np_index_on_board)
  next
    case (Some rc)
    then show ?thesis using r by (auto simp: np_index_on_board)
  qed
qed


subsection \<open>The undo discipline of the loops\<close>

lemma try_offsets_Cons_cases:
  assumes "try_offsets rec valid_cells row col piece_id piece ((dr, dc) # rest) s = Inr (ok, s')"
  obtains
    (skip) s1 where
      "can_place_piece s piece (row - dr) (col - dc) valid_cells = Inr (False, s1)"
      "try_offsets rec valid_cells row col piece_id piece rest s1 = Inr (ok, s')"
  | (found) s1 s2 u where
      "can_place_piece s piece (row - dr) (col - dc) valid_cells = Inr (True, s1)"
      "place_piece s1 piece (row - dr) (col - dc) (int piece_id) = Inr s2"
      "list_set (used_pieces s2) piece_id True = Inr u"
      "rec (s2\<lparr>used_pieces := u\<rparr>) = Inr (True, s')" "ok"
  | (undo) s1 s2 u s3 s4 u' where
      "can_place_piece s piece (row - dr) (col - dc) valid_cells = Inr (True, s1)"
      "place_piece s1 piece (row - dr) (col - dc) (int piece_id) = Inr s2"
      "list_set (used_pieces s2) piece_id True = Inr u"
      "rec (s2\<lparr>used_pieces := u\<rparr>) = Inr (False, s3)"
      "remove_piece s3 piece (row - dr) (col - dc) = Inr s4"
      "list_set (used_pieces s4) piece_id False = Inr u'"
      "try_offsets rec valid_cells row col piece_id piece rest (s4\<lparr>used_pieces := u'\<rparr>)
         = Inr (ok, s')"
proof -
  from assms obtain okp s1 where
    cp: "can_place_piece s piece (row - dr) (col - dc) valid_cells = Inr (okp, s1)"
    by (auto simp: andthen_eq_Inr Let_def)
  show thesis
  proof (cases okp)
    case False
    with assms cp show thesis by (intro skip [of s1]) (simp_all add: Let_def)
  next
    case True
    with assms cp obtain s2 u found s3 where
      pl: "place_piece s1 piece (row - dr) (col - dc) (int piece_id) = Inr s2"
      and ls: "list_set (used_pieces s2) piece_id True = Inr u"
      and rc: "rec (s2\<lparr>used_pieces := u\<rparr>) = Inr (found, s3)"
      by (auto simp: andthen_eq_Inr Let_def)
    show thesis
    proof (cases found)
      case f: True
      with assms cp True pl ls rc show thesis
        by (intro found [of s1 s2 u]) (simp_all add: Let_def)
    next
      case f: False
      with assms cp True pl ls rc obtain s4 u' where
        rm: "remove_piece s3 piece (row - dr) (col - dc) = Inr s4"
        and ls': "list_set (used_pieces s4) piece_id False = Inr u'"
        by (auto simp: andthen_eq_Inr Let_def)
      with assms cp True pl ls rc f show thesis
        by (intro undo [of s1 s2 u s3 s4 u']) (simp_all add: Let_def)
    qed
  qed
qed

lemma list_set_Inr: "list_set xs i v = Inr ys \<longleftrightarrow> i < length xs \<and> ys = xs[i := v]"
  by (auto simp: list_set_def)

lemma list_get_Inr: "list_get xs i = Inr v \<longleftrightarrow> i < length xs \<and> v = xs ! i"
  by (auto simp: list_get_def)

lemma undo_restores_board:
  assumes cp: "can_place_piece s piece sr sc valid_cells = Inr (True, s1)"
    and pl: "place_piece s1 piece sr sc v = Inr s2"
    and b3: "board s3 = board s2"
    and rm: "remove_piece s3 piece sr sc = Inr s4"
  shows "board s4 = board s"
proof -
  note c = can_place_piece_result [OF cp]
  note p = place_piece_result [OF pl, of UNIV]
  note r = place_piece_result [OF rm [unfolded remove_piece_eq_place], of UNIV]
  have "board s i = - 1" if "i \<in> elements piece sr sc" for i
    using that c unfolding elements_def by auto
  then show ?thesis using c p r b3 by auto
qed

lemma try_offsets_keeps:
  assumes "keeps valid_cells rec" "\<not> used_pieces s ! piece_id"
    and "try_offsets rec valid_cells row col piece_id piece offs s = Inr (ok, s')"
  shows "continues valid_cells s s'
    \<and> (\<not> ok \<longrightarrow> board s' = board s \<and> used_pieces s' = used_pieces s)"
  using assms(2,3)
proof (induction offs arbitrary: s)
  case Nil
  then show ?case by simp
next
  case (Cons d rest)
  obtain dr dc where d: "d = (dr, dc)" by (cases d)
  from Cons.prems(2) [unfolded d] show ?case
  proof (cases rule: try_offsets_Cons_cases)
    case (skip s1)
    note c = can_place_piece_result [OF skip(1)]
    have "\<not> used_pieces s1 ! piece_id" using c Cons.prems(1) by simp
    from Cons.IH [OF this skip(2)] c show ?thesis
      using continues_trans by auto
  next
    case (found s1 s2 u)
    note c = can_place_piece_result [OF found(1)]
    note p = place_piece_result [OF found(2), of valid_cells]
    have "continues valid_cells (s2\<lparr>used_pieces := u\<rparr>) s'"
      using assms(1) found(4) unfolding keeps_def by blast
    then have "continues valid_cells s2 s'" by simp
    then have "continues valid_cells s s'"
      using c p continues_trans by blast
    then show ?thesis using found(5) by simp
  next
    case (undo s1 s2 u s3 s4 u')
    note c = can_place_piece_result [OF undo(1)]
    note p = place_piece_result [OF undo(2), of valid_cells]
    have "continues valid_cells (s2\<lparr>used_pieces := u\<rparr>) s3
        \<and> (\<not> False \<longrightarrow> board s3 = board (s2\<lparr>used_pieces := u\<rparr>)
              \<and> used_pieces s3 = used_pieces (s2\<lparr>used_pieces := u\<rparr>))"
      using assms(1) undo(4) unfolding keeps_def by blast
    then have k: "continues valid_cells s2 s3" "board s3 = board s2" "used_pieces s3 = u"
      by simp_all
    note r = place_piece_result [OF undo(5) [unfolded remove_piece_eq_place], of valid_cells]
    have b4: "board s4 = board s"
      using undo(1,2) k(2) undo(5) by (rule undo_restores_board)
    have u: "u = (used_pieces s)[piece_id := True]" "piece_id < length (used_pieces s)"
      using undo(3) p c by (simp_all add: list_set_Inr)
    have "u' = u[piece_id := False]" using undo(6) r k(3) by (simp add: list_set_Inr)
    then have u': "u' = used_pieces s"
      using u Cons.prems(1) by (simp add: list_update_same_conv)
    have c4: "continues valid_cells s (s4\<lparr>used_pieces := u'\<rparr>)"
    proof -
      have "continues valid_cells s s2" using c p continues_trans by blast
      moreover note k(1)
      moreover have "continues valid_cells s3 s4" using r c by blast
      ultimately have "continues valid_cells s s4" using continues_trans by blast
      then show ?thesis by simp
    qed
    have "\<not> used_pieces (s4\<lparr>used_pieces := u'\<rparr>) ! piece_id"
      using u' Cons.prems(1) by simp
    from Cons.IH [OF this undo(7)] show ?thesis
      using c4 b4 u' continues_trans by auto
  qed
qed


lemma try_orientations_keeps:
  assumes "keeps valid_cells rec" "\<not> used_pieces s ! piece_id"
    and "try_orientations rec valid_cells row col piece_id orientations s = Inr (ok, s')"
  shows "continues valid_cells s s'
    \<and> (\<not> ok \<longrightarrow> board s' = board s \<and> used_pieces s' = used_pieces s)"
  using assms(2,3)
proof (induction orientations arbitrary: s)
  case Nil
  then show ?case by simp
next
  case (Cons piece rest)
  from Cons.prems(2) obtain found s1 where
    t: "try_offsets rec valid_cells row col piece_id piece piece s = Inr (found, s1)"
    and r: "(if found then Inr (True, s1)
        else try_orientations rec valid_cells row col piece_id rest s1) = Inr (ok, s')"
    by (auto simp: andthen_eq_Inr)
  note k = try_offsets_keeps [OF assms(1) Cons.prems(1) t]
  show ?case
  proof (cases found)
    case True
    with r k show ?thesis by simp
  next
    case False
    with r have r': "try_orientations rec valid_cells row col piece_id rest s1 = Inr (ok, s')"
      by simp
    have "\<not> used_pieces s1 ! piece_id" using k False Cons.prems(1) by simp
    from Cons.IH [OF this r'] k False show ?thesis
      using continues_trans by auto
  qed
qed

lemma try_pieces_keeps:
  assumes "keeps valid_cells rec"
    and "try_pieces rec valid_cells row col piece_id pieces_orientations s = Inr (ok, s')"
  shows "continues valid_cells s s'
    \<and> (\<not> ok \<longrightarrow> board s' = board s \<and> used_pieces s' = used_pieces s)"
  using assms(2)
proof (induction pieces_orientations arbitrary: s piece_id)
  case Nil
  then show ?case by simp
next
  case (Cons orientations rest)
  from Cons.prems obtain used where
    g: "list_get (used_pieces s) piece_id = Inr used"
    and r: "(if used then try_pieces rec valid_cells row col (Suc piece_id) rest s
        else andthen (try_orientations rec valid_cells row col piece_id orientations s)
          (\<lambda>(found, s1). if found then Inr (True, s1)
             else try_pieces rec valid_cells row col (Suc piece_id) rest s1)) = Inr (ok, s')"
    by (auto simp: andthen_eq_Inr)
  show ?case
  proof (cases used)
    case True
    with r have "try_pieces rec valid_cells row col (Suc piece_id) rest s = Inr (ok, s')"
      by simp
    then show ?thesis by (rule Cons.IH)
  next
    case False
    with g have nu: "\<not> used_pieces s ! piece_id" by (simp add: list_get_Inr)
    from r False obtain found s1 where
      t: "try_orientations rec valid_cells row col piece_id orientations s = Inr (found, s1)"
      and r': "(if found then Inr (True, s1)
          else try_pieces rec valid_cells row col (Suc piece_id) rest s1) = Inr (ok, s')"
      by (auto simp: andthen_eq_Inr)
    note k = try_orientations_keeps [OF assms(1) nu t]
    show ?thesis
    proof (cases found)
      case True
      with r' k show ?thesis by simp
    next
      case f: False
      with r' have "try_pieces rec valid_cells row col (Suc piece_id) rest s1 = Inr (ok, s')"
        by simp
      from Cons.IH [OF this] k f show ?thesis
        using continues_trans by auto
    qed
  qed
qed

lemma solve_keeps: "keeps valid_cells (solve depth pieces_orientations valid_cells)"
proof (induction depth)
  case 0
  then show ?case by (simp add: keeps_def)
next
  case (Suc depth)
  show ?case
    unfolding keeps_def
  proof (intro allI impI)
    fix s ok s'
    assume a: "solve (Suc depth) pieces_orientations valid_cells s = Inr (ok, s')"
    then obtain empty s1 where f: "find_first_empty s valid_cells = Inr (empty, s1)"
      and r: "(case empty of None \<Rightarrow> Inr (True, s1)
          | Some (row, col) \<Rightarrow>
              try_pieces (solve depth pieces_orientations valid_cells) valid_cells row col 0
                pieces_orientations s1) = Inr (ok, s')"
      by (auto simp: andthen_eq_Inr)
    note e = find_first_empty_result [OF f]
    show "continues valid_cells s s'
      \<and> (\<not> ok \<longrightarrow> board s' = board s \<and> used_pieces s' = used_pieces s)"
    proof (cases empty)
      case None
      with r e show ?thesis by simp
    next
      case (Some rc)
      obtain row col where rc: "rc = (row, col)" by (cases rc)
      from r Some rc have
        "try_pieces (solve depth pieces_orientations valid_cells) valid_cells row col 0
           pieces_orientations s1 = Inr (ok, s')"
        by simp
      from try_pieces_keeps [OF Suc this] e show ?thesis
        using continues_trans by auto
    qed
  qed
qed

subsection \<open>The search returns, and finds a tiling when there is one\<close>

lemma elements_on_board:
  assumes "\<forall>rc \<in> footprint piece sr sc. on_board rc"
  shows "elements piece sr sc = footprint piece sr sc"
  using assms unfolding elements_def by (auto simp: np_index_on_board)

lemma can_place_piece_total:
  assumes "\<forall>rc \<in> valid_cells. on_board rc"
  shows "\<exists>ok s'. can_place_piece s piece start_row start_col valid_cells = Inr (ok, s')"
proof (induction piece arbitrary: s)
  case Nil
  then show ?case by auto
next
  case (Cons d piece)
  obtain dr dc where d: "d = (dr, dc)" by (cases d)
  show ?case
  proof (cases "(start_row + dr, start_col + dc) \<in> valid_cells")
    case False
    then show ?thesis by (auto simp: d)
  next
    case True
    then have "np_index (start_row + dr, start_col + dc) = Inr (start_row + dr, start_col + dc)"
      using assms by (simp add: np_index_on_board)
    then show ?thesis
      using True Cons.IH [of "s\<lparr>accesses := Rd (start_row + dr, start_col + dc) # accesses s\<rparr>"]
      by (auto simp: d np_get_def Let_def)
  qed
qed

lemma can_place_piece_fits:
  assumes "\<forall>rc \<in> valid_cells. on_board rc"
    and "footprint piece start_row start_col \<subseteq> empty_cells valid_cells (board s)"
  shows "\<exists>s'. can_place_piece s piece start_row start_col valid_cells = Inr (True, s')"
  using assms(2)
proof (induction piece arbitrary: s)
  case Nil
  then show ?case by simp
next
  case (Cons d piece)
  obtain dr dc where d: "d = (dr, dc)" by (cases d)
  let ?rc = "(start_row + dr, start_col + dc)"
  have fp: "footprint (d # piece) start_row start_col
      = insert ?rc (footprint piece start_row start_col)"
    by (simp add: footprint_def d)
  have rc: "?rc \<in> valid_cells" "board s ?rc = - 1"
    using Cons.prems unfolding fp empty_cells_def by auto
  have i: "np_index ?rc = Inr ?rc" using rc(1) assms(1) by (simp add: np_index_on_board)
  have "footprint piece start_row start_col
      \<subseteq> empty_cells valid_cells (board (s\<lparr>accesses := Rd ?rc # accesses s\<rparr>))"
    using Cons.prems unfolding fp by simp
  from Cons.IH [OF this] show ?case using rc i by (auto simp: d np_get_def Let_def)
qed

lemma can_place_piece_True_fits:
  assumes "\<forall>rc \<in> valid_cells. on_board rc"
    and "can_place_piece s piece start_row start_col valid_cells = Inr (True, s')"
  shows "footprint piece start_row start_col \<subseteq> empty_cells valid_cells (board s)"
proof
  fix rc assume rc: "rc \<in> footprint piece start_row start_col"
  note c = can_place_piece_result [OF assms(2)]
  from c rc have v: "rc \<in> valid_cells" by auto
  then have "np_index rc = Inr rc" using assms(1) by (simp add: np_index_on_board)
  moreover from c rc obtain i where "np_index rc = Inr i" "board s i = - 1" by auto
  ultimately show "rc \<in> empty_cells valid_cells (board s)"
    using v by (simp add: empty_cells_def)
qed

lemma place_piece_total:
  assumes "\<forall>rc \<in> footprint piece start_row start_col. on_board rc"
  shows "\<exists>s'. place_piece s piece start_row start_col v = Inr s'"
  using assms
proof (induction piece arbitrary: s)
  case Nil
  then show ?case by simp
next
  case (Cons d piece)
  obtain dr dc where d: "d = (dr, dc)" by (cases d)
  let ?rc = "(start_row + dr, start_col + dc)"
  have fp: "footprint (d # piece) start_row start_col
      = insert ?rc (footprint piece start_row start_col)"
    by (simp add: footprint_def d)
  have "np_index ?rc = Inr ?rc" using Cons.prems unfolding fp by (simp add: np_index_on_board)
  moreover have "\<forall>rc \<in> footprint piece start_row start_col. on_board rc"
    using Cons.prems unfolding fp by simp
  ultimately show ?case using Cons.IH by (auto simp: d np_set_def)
qed

lemma place_piece_stamp:
  assumes "\<forall>rc \<in> footprint piece start_row start_col. on_board rc"
    and "place_piece s piece start_row start_col v = Inr s'"
  shows "board s' = stamp (board s) (footprint piece start_row start_col) v"
    "used_pieces s' = used_pieces s"
  using place_piece_result [OF assms(2), of UNIV] elements_on_board [OF assms(1)]
  by (simp_all add: stamp_def)

lemma unused_update:
  assumes "i < length xs" "\<not> xs ! i"
  shows "Suc (length (filter (\<lambda>b. \<not> b) (xs[i := True]))) = length (filter (\<lambda>b. \<not> b) xs)"
  using assms
proof (induction xs arbitrary: i)
  case Nil
  then show ?case by simp
next
  case (Cons x xs)
  then show ?case by (cases i) auto
qed


lemma unused_less:
  assumes "i < length (used_pieces s)" "\<not> used_pieces s ! i"
  shows "unused (s'\<lparr>used_pieces := (used_pieces s)[i := True]\<rparr>) < unused s"
  using unused_update [OF assms] by (simp add: unused_def)

lemma try_offsets_thorough:
  assumes V: "\<forall>rc \<in> valid_cells. on_board rc"
    and k: "keeps valid_cells rec"
    and t: "thorough pos valid_cells n rec"
    and W: "length (used_pieces s) = length pos" "piece_id < length pos"
      "\<not> used_pieces s ! piece_id" "unused s \<le> n"
  shows "\<exists>ok s'. try_offsets rec valid_cells row col piece_id piece offs s = Inr (ok, s')
    \<and> ((\<exists>d \<in> set offs. winning pos valid_cells (board s) (used_pieces s) piece_id piece
            (row - fst d) (col - snd d)) \<longrightarrow> ok)"
  using W
proof (induction offs arbitrary: s)
  case Nil
  then show ?case by auto
next
  case (Cons d rest)
  obtain dr dc where d: "d = (dr, dc)" by (cases d)
  let ?sr = "row - dr" and ?sc = "col - dc"
  let ?win = "\<lambda>s offs. \<exists>d \<in> set offs. winning pos valid_cells (board s) (used_pieces s)
      piece_id piece (row - fst d) (col - snd d)"
  have step: "\<exists>ok s'. try_offsets rec valid_cells row col piece_id piece (d # rest) s = Inr (ok, s')
      \<and> (?win s (d # rest) \<longrightarrow> ok)"
    if eq: "try_offsets rec valid_cells row col piece_id piece (d # rest) s
        = try_offsets rec valid_cells row col piece_id piece rest s1"
      and same: "board s1 = board s" "used_pieces s1 = used_pieces s"
      and lose: "\<not> winning pos valid_cells (board s) (used_pieces s) piece_id piece ?sr ?sc"
    for s1
  proof -
    have "\<exists>ok s'. try_offsets rec valid_cells row col piece_id piece rest s1 = Inr (ok, s')
        \<and> (?win s1 rest \<longrightarrow> ok)"
      using Cons.prems by (intro Cons.IH) (simp_all add: same unused_def)
    moreover have "?win s (d # rest) \<longrightarrow> ?win s1 rest"
      using lose by (auto simp: d same)
    ultimately show ?thesis unfolding eq by blast
  qed
  obtain okp s1 where cp: "can_place_piece s piece ?sr ?sc valid_cells = Inr (okp, s1)"
    using can_place_piece_total [OF V] by blast
  note c = can_place_piece_result [OF cp]
  show ?case
  proof (cases okp)
    case False
    have "\<not> footprint piece ?sr ?sc \<subseteq> empty_cells valid_cells (board s)"
      using can_place_piece_fits [OF V, of piece ?sr ?sc s] cp False by auto
    then have "\<not> winning pos valid_cells (board s) (used_pieces s) piece_id piece ?sr ?sc"
      by (simp add: winning_def)
    moreover have "try_offsets rec valid_cells row col piece_id piece (d # rest) s
        = try_offsets rec valid_cells row col piece_id piece rest s1"
      using cp False by (simp add: d)
    ultimately show ?thesis using c by (intro step [of s1]) simp_all
  next
    case True
    have fits: "footprint piece ?sr ?sc \<subseteq> empty_cells valid_cells (board s)"
      using can_place_piece_True_fits [OF V] cp True by simp
    then have onb: "\<forall>rc \<in> footprint piece ?sr ?sc. on_board rc"
      using V by (auto simp: empty_cells_def)
    obtain s2 where pl: "place_piece s1 piece ?sr ?sc (int piece_id) = Inr s2"
      using place_piece_total [OF onb] by blast
    note p = place_piece_stamp [OF onb pl]
    let ?u = "(used_pieces s)[piece_id := True]"
    have ls: "list_set (used_pieces s2) piece_id True = Inr ?u"
      using Cons.prems p c by (simp add: list_set_def)
    let ?s2 = "s2\<lparr>used_pieces := ?u\<rparr>"
    have "unused ?s2 < unused s"
      using Cons.prems by (intro unused_less) simp_all
    then have "length (used_pieces ?s2) = length pos \<and> unused ?s2 < n"
      using Cons.prems by simp
    with t obtain found s3 where rc: "rec ?s2 = Inr (found, s3)"
      and cf: "completable pos valid_cells (board ?s2) (used_pieces ?s2) \<longrightarrow> found"
      unfolding thorough_def by blast
    show ?thesis
    proof (cases found)
      case f: True
      then have "try_offsets rec valid_cells row col piece_id piece (d # rest) s = Inr (True, s3)"
        using cp True pl ls rc by (simp add: d)
      then show ?thesis by blast
    next
      case f: False
      have "board s3 = board ?s2 \<and> used_pieces s3 = used_pieces ?s2"
        using k rc f unfolding keeps_def by blast
      then have r3: "board s3 = board s2" "used_pieces s3 = ?u" by simp_all
      obtain s4 where rm: "remove_piece s3 piece ?sr ?sc = Inr s4"
        using place_piece_total [OF onb] unfolding remove_piece_eq_place by blast
      have cpT: "can_place_piece s piece ?sr ?sc valid_cells = Inr (True, s1)"
        using cp True by simp
      have b4: "board s4 = board s"
        using cpT pl r3(1) rm by (rule undo_restores_board)
      have u4: "used_pieces s4 = ?u"
        using place_piece_result [OF rm [unfolded remove_piece_eq_place], of UNIV] r3(2) by simp
      have "?u[piece_id := False] = used_pieces s"
        using Cons.prems by (simp add: list_update_same_conv)
      then have ls': "list_set (used_pieces s4) piece_id False = Inr (used_pieces s)"
        using u4 Cons.prems by (simp add: list_set_def)
      let ?s4 = "s4\<lparr>used_pieces := used_pieces s\<rparr>"
      have "\<not> completable pos valid_cells (stamp (board s) (footprint piece ?sr ?sc) (int piece_id)) ?u"
        using cf f p c by simp
      then have "\<not> winning pos valid_cells (board s) (used_pieces s) piece_id piece ?sr ?sc"
        by (simp add: winning_def)
      moreover have "try_offsets rec valid_cells row col piece_id piece (d # rest) s
          = try_offsets rec valid_cells row col piece_id piece rest ?s4"
        using cp True pl ls rc f rm ls' by (simp add: d)
      ultimately show ?thesis using b4 by (intro step [of ?s4]) simp_all
    qed
  qed
qed



lemma try_orientations_thorough:
  assumes V: "\<forall>rc \<in> valid_cells. on_board rc"
    and k: "keeps valid_cells rec"
    and t: "thorough pos valid_cells n rec"
    and W: "length (used_pieces s) = length pos" "piece_id < length pos"
      "\<not> used_pieces s ! piece_id" "unused s \<le> n"
  shows "\<exists>ok s'. try_orientations rec valid_cells row col piece_id orientations s = Inr (ok, s')
    \<and> ((\<exists>piece \<in> set orientations.
           orientation_wins pos valid_cells (board s) (used_pieces s) row col piece_id piece)
         \<longrightarrow> ok)"
  using W
proof (induction orientations arbitrary: s)
  case Nil
  have "try_orientations rec valid_cells row col piece_id [] s = Inr (False, s)" by simp
  then show ?case by auto
next
  case (Cons piece rest)
  from try_offsets_thorough [OF V k t Cons.prems, of row col piece piece]
  obtain found s1 where
    o: "try_offsets rec valid_cells row col piece_id piece piece s = Inr (found, s1)"
    and h: "orientation_wins pos valid_cells (board s) (used_pieces s) row col piece_id piece
        \<longrightarrow> found"
    unfolding orientation_wins_def by blast
  show ?case
  proof (cases found)
    case True
    then have "try_orientations rec valid_cells row col piece_id (piece # rest) s = Inr (True, s1)"
      using o by simp
    then show ?thesis by auto
  next
    case False
    have same: "board s1 = board s" "used_pieces s1 = used_pieces s"
      using try_offsets_keeps [OF k Cons.prems(3) o] False by simp_all
    have eq: "try_orientations rec valid_cells row col piece_id (piece # rest) s
        = try_orientations rec valid_cells row col piece_id rest s1"
      using o False by simp
    have "\<exists>ok s'. try_orientations rec valid_cells row col piece_id rest s1 = Inr (ok, s')
      \<and> ((\<exists>piece \<in> set rest.
             orientation_wins pos valid_cells (board s1) (used_pieces s1) row col piece_id piece)
           \<longrightarrow> ok)"
      using Cons.prems by (intro Cons.IH) (simp_all add: same unused_def)
    then obtain ok s' where
      r: "try_orientations rec valid_cells row col piece_id rest s1 = Inr (ok, s')"
      and hr: "(\<exists>piece \<in> set rest.
             orientation_wins pos valid_cells (board s) (used_pieces s) row col piece_id piece)
           \<longrightarrow> ok"
      unfolding same by blast
    have "(\<exists>p \<in> set (piece # rest).
             orientation_wins pos valid_cells (board s) (used_pieces s) row col piece_id p)
           \<longrightarrow> ok"
      using h False hr by simp
    then show ?thesis unfolding eq using r by blast
  qed
qed


lemma try_pieces_thorough:
  assumes V: "\<forall>rc \<in> valid_cells. on_board rc"
    and k: "keeps valid_cells rec"
    and t: "thorough pos valid_cells n rec"
    and W: "length (used_pieces s) = length pos" "unused s \<le> n"
    and rests: "rests = drop piece_id pos"
  shows "\<exists>ok s'. try_pieces rec valid_cells row col piece_id rests s = Inr (ok, s')
    \<and> ((\<exists>j. piece_id \<le> j \<and> j < length pos
           \<and> piece_wins pos valid_cells (board s) (used_pieces s) row col j) \<longrightarrow> ok)"
  using W rests
proof (induction rests arbitrary: s piece_id)
  case Nil
  then have "length pos \<le> piece_id" by simp
  then have "\<not> (\<exists>j. piece_id \<le> j \<and> j < length pos
           \<and> piece_wins pos valid_cells (board s) (used_pieces s) row col j)"
    by auto
  moreover have "try_pieces rec valid_cells row col piece_id [] s = Inr (False, s)" by simp
  ultimately show ?case by blast
next
  case (Cons orientations rest)
  define hit where "hit j = piece_wins pos valid_cells (board s) (used_pieces s) row col j" for j
  have lt: "piece_id < length pos"
  proof (rule ccontr)
    assume "\<not> piece_id < length pos"
    then have "drop piece_id pos = []" by simp
    with Cons.prems(3) show False by simp
  qed
  have "pos ! piece_id # drop (Suc piece_id) pos = orientations # rest"
    using Cons.prems(3) Cons_nth_drop_Suc [OF lt] by simp
  then have nth: "orientations = pos ! piece_id" and rest: "rest = drop (Suc piece_id) pos"
    by simp_all
  have g: "list_get (used_pieces s) piece_id = Inr (used_pieces s ! piece_id)"
    using lt Cons.prems(1) by (simp add: list_get_def)
  have next_hit: "\<exists>j. Suc piece_id \<le> j \<and> j < length pos \<and> hit j"
    if "\<exists>j. piece_id \<le> j \<and> j < length pos \<and> hit j" "\<not> hit piece_id"
  proof -
    from that(1) obtain j where j: "piece_id \<le> j" "j < length pos" "hit j" by blast
    with that(2) have "j \<noteq> piece_id" by blast
    with j have "Suc piece_id \<le> j" by simp
    with j show ?thesis by blast
  qed
  show ?case
  proof (cases "used_pieces s ! piece_id")
    case True
    have eq: "try_pieces rec valid_cells row col piece_id (orientations # rest) s
        = try_pieces rec valid_cells row col (Suc piece_id) rest s"
      using g True by simp
    have "\<exists>ok s'. try_pieces rec valid_cells row col (Suc piece_id) rest s = Inr (ok, s')
      \<and> ((\<exists>j. Suc piece_id \<le> j \<and> j < length pos
           \<and> piece_wins pos valid_cells (board s) (used_pieces s) row col j) \<longrightarrow> ok)"
      using Cons.prems(1,2) rest by (rule Cons.IH)
    then obtain ok s' where
      r: "try_pieces rec valid_cells row col (Suc piece_id) rest s = Inr (ok, s')"
      and hr: "(\<exists>j. Suc piece_id \<le> j \<and> j < length pos \<and> hit j) \<longrightarrow> ok"
      unfolding hit_def by blast
    have "\<not> hit piece_id" using True by (simp add: hit_def piece_wins_def)
    then have "(\<exists>j. piece_id \<le> j \<and> j < length pos \<and> hit j) \<longrightarrow> ok"
      using next_hit hr by blast
    then show ?thesis unfolding eq hit_def using r by blast
  next
    case False
    from try_orientations_thorough [OF V k t Cons.prems(1) lt False Cons.prems(2), of row col orientations]
    obtain found s1 where
      o: "try_orientations rec valid_cells row col piece_id orientations s = Inr (found, s1)"
      and h: "(\<exists>piece \<in> set orientations.
           orientation_wins pos valid_cells (board s) (used_pieces s) row col piece_id piece)
         \<longrightarrow> found"
      by blast
    have h': "hit piece_id \<longrightarrow> found"
      using h unfolding hit_def piece_wins_def nth by blast
    show ?thesis
    proof (cases found)
      case f: True
      then have "try_pieces rec valid_cells row col piece_id (orientations # rest) s = Inr (True, s1)"
        using g False o by simp
      then show ?thesis by auto
    next
      case f: False
      have same: "board s1 = board s" "used_pieces s1 = used_pieces s"
        using try_orientations_keeps [OF k False o] f by simp_all
      have eq: "try_pieces rec valid_cells row col piece_id (orientations # rest) s
          = try_pieces rec valid_cells row col (Suc piece_id) rest s1"
        using g False o f by simp
      have "\<exists>ok s'. try_pieces rec valid_cells row col (Suc piece_id) rest s1 = Inr (ok, s')
        \<and> ((\<exists>j. Suc piece_id \<le> j \<and> j < length pos
             \<and> piece_wins pos valid_cells (board s1) (used_pieces s1) row col j) \<longrightarrow> ok)"
        using Cons.prems(1,2) rest by (intro Cons.IH) (simp_all add: same unused_def)
      then obtain ok s' where
        r: "try_pieces rec valid_cells row col (Suc piece_id) rest s1 = Inr (ok, s')"
        and hr: "(\<exists>j. Suc piece_id \<le> j \<and> j < length pos \<and> hit j) \<longrightarrow> ok"
        unfolding hit_def same by blast
      have "\<not> hit piece_id" using h' f by blast
      then have "(\<exists>j. piece_id \<le> j \<and> j < length pos \<and> hit j) \<longrightarrow> ok"
        using next_hit hr by blast
      then show ?thesis unfolding eq hit_def using r by blast
    qed
  qed
qed


lemma empty_cells_stamp:
  assumes "v \<noteq> - 1"
  shows "empty_cells valid_cells (stamp b cells v) = empty_cells valid_cells b - cells"
  using assms by (auto simp: empty_cells_def stamp_def)

lemma completable_after_placement:
  assumes c: "\<forall>j < length pos. \<not> u ! j \<longrightarrow> fst (pl j) \<in> set (pos ! j)"
    and d: "\<forall>i < length pos. \<forall>j < length pos. \<not> u ! i \<longrightarrow> \<not> u ! j \<longrightarrow> i \<noteq> j \<longrightarrow>
            placement_cells (pl i) \<inter> placement_cells (pl j) = {}"
    and e: "empty_cells valid_cells b
          = (\<Union>j \<in> {j. j < length pos \<and> \<not> u ! j}. placement_cells (pl j))"
    and len: "length u = length pos"
    and k: "k < length pos" "\<not> u ! k"
  shows "completable pos valid_cells (stamp b (placement_cells (pl k)) (int k)) (u[k := True])"
proof -
  let ?u = "u[k := True]"
  have un: "\<not> ?u ! j \<longleftrightarrow> \<not> u ! j \<and> j \<noteq> k" if "j < length pos" for j
    using that len by (cases "j = k") simp_all
  have 1: "\<forall>j < length pos. \<not> ?u ! j \<longrightarrow> fst (pl j) \<in> set (pos ! j)"
    using c un by blast
  have 2: "\<forall>i < length pos. \<forall>j < length pos. \<not> ?u ! i \<longrightarrow> \<not> ?u ! j \<longrightarrow> i \<noteq> j \<longrightarrow>
            placement_cells (pl i) \<inter> placement_cells (pl j) = {}"
    using d un by blast
  have idx: "{j. j < length pos \<and> \<not> ?u ! j} = {j. j < length pos \<and> \<not> u ! j} - {k}"
    using un by blast
  have "(\<Union>j \<in> {j. j < length pos \<and> \<not> u ! j}. placement_cells (pl j)) - placement_cells (pl k)
      = (\<Union>j \<in> {j. j < length pos \<and> \<not> u ! j} - {k}. placement_cells (pl j))"
  proof (intro equalityI subsetI)
    fix x
    assume "x \<in> (\<Union>j \<in> {j. j < length pos \<and> \<not> u ! j}. placement_cells (pl j)) - placement_cells (pl k)"
    then obtain j where "j < length pos" "\<not> u ! j" "x \<in> placement_cells (pl j)"
      "x \<notin> placement_cells (pl k)" by blast
    then show "x \<in> (\<Union>j \<in> {j. j < length pos \<and> \<not> u ! j} - {k}. placement_cells (pl j))"
      by blast
  next
    fix x
    assume "x \<in> (\<Union>j \<in> {j. j < length pos \<and> \<not> u ! j} - {k}. placement_cells (pl j))"
    then obtain j where j: "j < length pos" "\<not> u ! j" "j \<noteq> k" "x \<in> placement_cells (pl j)"
      by blast
    then have "placement_cells (pl j) \<inter> placement_cells (pl k) = {}" using d k by blast
    then have "x \<notin> placement_cells (pl k)" using j(4) by blast
    then show "x \<in> (\<Union>j \<in> {j. j < length pos \<and> \<not> u ! j}. placement_cells (pl j)) - placement_cells (pl k)"
      using j by blast
  qed
  then have 3: "empty_cells valid_cells (stamp b (placement_cells (pl k)) (int k))
      = (\<Union>j \<in> {j. j < length pos \<and> \<not> ?u ! j}. placement_cells (pl j))"
    unfolding idx by (simp add: empty_cells_stamp e)
  show ?thesis
    unfolding completable_def using 1 2 3 by blast
qed

lemma completable_piece_wins:
  assumes "completable pos valid_cells b u" "length u = length pos"
    and rc: "(row, col) \<in> empty_cells valid_cells b"
  shows "\<exists>j. 0 \<le> j \<and> j < length pos \<and> piece_wins pos valid_cells b u row col j"
proof -
  from assms(1) obtain pl :: "nat \<Rightarrow> shape \<times> int \<times> int" where
    c: "\<forall>j < length pos. \<not> u ! j \<longrightarrow> fst (pl j) \<in> set (pos ! j)"
    and d: "\<forall>i < length pos. \<forall>j < length pos. \<not> u ! i \<longrightarrow> \<not> u ! j \<longrightarrow> i \<noteq> j \<longrightarrow>
            placement_cells (pl i) \<inter> placement_cells (pl j) = {}"
    and e: "empty_cells valid_cells b
          = (\<Union>j \<in> {j. j < length pos \<and> \<not> u ! j}. placement_cells (pl j))"
    unfolding completable_def by blast
  from rc obtain k where k: "k < length pos" "\<not> u ! k" "(row, col) \<in> placement_cells (pl k)"
    unfolding e by blast
  obtain piece sr sc where p: "pl k = (piece, sr, sc)" by (cases "pl k")
  have pc: "placement_cells (pl k) = footprint piece sr sc" by (simp add: placement_cells_def p)
  from k(3) obtain dd where dd: "dd \<in> set piece" "(row, col) = (sr + fst dd, sc + snd dd)"
    unfolding pc footprint_def by (auto simp: split_def)
  then have anchor: "row - fst dd = sr" "col - snd dd = sc" by simp_all
  have "footprint piece sr sc \<subseteq> empty_cells valid_cells b"
    unfolding e using k(1,2) pc by blast
  moreover have "completable pos valid_cells (stamp b (footprint piece sr sc) (int k)) (u[k := True])"
    using completable_after_placement [OF c d e assms(2) k(1,2)] unfolding pc .
  ultimately have "winning pos valid_cells b u k piece (row - fst dd) (col - snd dd)"
    unfolding winning_def anchor by simp
  then have "orientation_wins pos valid_cells b u row col k piece"
    unfolding orientation_wins_def using dd(1) by blast
  moreover have "piece \<in> set (pos ! k)" using c k(1,2) p by auto
  ultimately have "piece_wins pos valid_cells b u row col k"
    unfolding piece_wins_def using k(2) by blast
  then show ?thesis using k(1) by blast
qed

lemma solve_thorough:
  assumes V: "\<forall>rc \<in> valid_cells. on_board rc"
  shows "thorough pos valid_cells n (solve n pos valid_cells)"
proof (induction n)
  case 0
  then show ?case by (simp add: thorough_def)
next
  case (Suc n)
  show ?case
    unfolding thorough_def
  proof (intro allI impI)
    fix s
    assume a: "length (used_pieces s) = length pos \<and> unused s < Suc n"
    obtain empty s1 where f: "find_first_empty s valid_cells = Inr (empty, s1)"
      using find_first_empty_total by blast
    note e = find_first_empty_result [OF f]
    show "\<exists>ok s'. solve (Suc n) pos valid_cells s = Inr (ok, s')
        \<and> (completable pos valid_cells (board s) (used_pieces s) \<longrightarrow> ok)"
    proof (cases empty)
      case None
      then have "solve (Suc n) pos valid_cells s = Inr (True, s1)" using f by simp
      then show ?thesis by auto
    next
      case (Some rc)
      obtain row col where rc: "rc = (row, col)" by (cases rc)
      have eq: "solve (Suc n) pos valid_cells s
          = try_pieces (solve n pos valid_cells) valid_cells row col 0 pos s1"
        using f Some rc by simp
      have W: "length (used_pieces s1) = length pos" "unused s1 \<le> n"
        using a e by (simp_all add: unused_def)
      from try_pieces_thorough [OF V solve_keeps Suc W, of pos 0 row col]
      obtain ok s' where
        r: "try_pieces (solve n pos valid_cells) valid_cells row col 0 pos s1 = Inr (ok, s')"
        and h: "(\<exists>j. 0 \<le> j \<and> j < length pos
           \<and> piece_wins pos valid_cells (board s1) (used_pieces s1) row col j) \<longrightarrow> ok"
        by auto
      have "(row, col) \<in> empty_cells valid_cells (board s)"
        using e Some rc by (simp add: empty_cells_def)
      then have "completable pos valid_cells (board s) (used_pieces s) \<longrightarrow> ok"
        using completable_piece_wins [of pos valid_cells "board s" "used_pieces s" row col] a h e
        by auto
      then show ?thesis unfolding eq using r by blast
    qed
  qed
qed

subsection \<open>Calendar tables and the playable cells\<close>

lemma day_lookup_all:
  "list_all (\<lambda>day. dict_get DAY_TO_POS day = Inr ((day - 1) div 7 + 2, (day - 1) mod 7)) [1..31]"
  by code_simp

lemma month_lookup_all:
  "list_all (\<lambda>month. andthen (py_index MONTH_NAMES (month - 1)) (dict_get MONTH_TO_POS)
      = Inr ((month - 1) div 6, (month - 1) mod 6)) [1..12]"
  by code_simp

lemma day_lookup:
  assumes "1 \<le> day" "day \<le> 31"
  shows "dict_get DAY_TO_POS day = Inr ((day - 1) div 7 + 2, (day - 1) mod 7)"
proof -
  have "day \<in> set [1..31]" using assms by simp
  with day_lookup_all show ?thesis unfolding list_all_iff by blast
qed

lemma month_lookup:
  assumes "1 \<le> month" "month \<le> 12"
  shows "andthen (py_index MONTH_NAMES (month - 1)) (dict_get MONTH_TO_POS)
           = Inr ((month - 1) div 6, (month - 1) mod 6)"
proof -
  have "month \<in> set [1..12]" using assms by simp
  with month_lookup_all show ?thesis unfolding list_all_iff by blast
qed

lemma get_all_valid_cells_eq: "get_all_valid_cells = {rc. on_board rc \<and> rc \<notin> BLOCKED}"
  by (auto simp: get_all_valid_cells_def set_py_range on_board_def)

lemma valid_cells_list:
  "get_all_valid_cells = set
    [(0,0),(0,1),(0,2),(0,3),(0,4),(0,5),
     (1,0),(1,1),(1,2),(1,3),(1,4),(1,5),
     (2,0),(2,1),(2,2),(2,3),(2,4),(2,5),(2,6),
     (3,0),(3,1),(3,2),(3,3),(3,4),(3,5),(3,6),
     (4,0),(4,1),(4,2),(4,3),(4,4),(4,5),(4,6),
     (5,0),(5,1),(5,2),(5,3),(5,4),(5,5),(5,6),
     (6,0),(6,1),(6,2)]"
  by code_simp

lemma card_valid_cells: "card get_all_valid_cells = 43"
  unfolding valid_cells_list by (subst distinct_card) simp_all

lemma month_cell_valid:
  assumes "1 \<le> month" "month \<le> 12"
  shows "((month - 1) div 6, (month - 1) mod 6) \<in> get_all_valid_cells"
    "(month - 1) div 6 < 2"
proof -
  have "0 \<le> (month - 1) div 6" "(month - 1) div 6 < 2" "0 \<le> (month - 1) mod 6" "(month - 1) mod 6 < 6"
    using assms by simp_all
  then show "((month - 1) div 6, (month - 1) mod 6) \<in> get_all_valid_cells" "(month - 1) div 6 < 2"
    by (auto simp: get_all_valid_cells_eq on_board_def BOARD_ROWS_def BOARD_COLS_def BLOCKED_def)
qed

lemma day_cell_valid:
  assumes "1 \<le> day" "day \<le> 31"
  shows "((day - 1) div 7 + 2, (day - 1) mod 7) \<in> get_all_valid_cells"
proof -
  have "day \<in> set [1..31]" using assms by simp
  moreover have "list_all (\<lambda>day. ((day - 1) div 7 + 2, (day - 1) mod 7) \<in> get_all_valid_cells) [1..31]"
    by code_simp
  ultimately show ?thesis unfolding list_all_iff by blast
qed

lemma playable_facts:
  assumes "1 \<le> month" "month \<le> 12" "1 \<le> day" "day \<le> 31"
  defines "mp \<equiv> ((month - 1) div 6, (month - 1) mod 6)"
    and "dp \<equiv> ((day - 1) div 7 + 2, (day - 1) mod 7)"
  shows "\<forall>rc \<in> playable mp dp. on_board rc" "finite (playable mp dp)"
    "card (playable mp dp) = 41" "mp \<notin> playable mp dp" "dp \<notin> playable mp dp"
proof -
  have m: "mp \<in> get_all_valid_cells" "fst mp < 2"
    using month_cell_valid [OF assms(1,2)] by (simp_all add: mp_def)
  have d: "dp \<in> get_all_valid_cells" "2 \<le> fst dp"
    using day_cell_valid [OF assms(3,4)] assms(3) by (simp_all add: dp_def)
  have ne: "mp \<noteq> dp" using m(2) d(2) by auto
  have fin: "finite get_all_valid_cells" by (simp add: get_all_valid_cells_def)
  show "\<forall>rc \<in> playable mp dp. on_board rc"
    by (simp add: playable_def get_all_valid_cells_eq)
  show "finite (playable mp dp)" using fin by (simp add: playable_def)
  show "mp \<notin> playable mp dp" "dp \<notin> playable mp dp" by (simp_all add: playable_def)
  have "card (get_all_valid_cells - {mp}) = 42"
    using m(1) fin card_valid_cells by simp
  moreover have "dp \<in> get_all_valid_cells - {mp}" using d(1) ne by simp
  ultimately show "card (playable mp dp) = 41"
    using fin by (simp add: playable_def)
qed

subsection \<open>The orientation table and the invariant of the search\<close>

lemma orientation_table: "map (orientations_loop 4 []) PIECES = map Inr ORIENTATION_TABLE"
  by code_simp

lemma orientation_table_shapes:
  "list_all2 (\<lambda>p os. distinct os \<and> list_all (\<lambda>piece. distinct piece \<and> length piece = length p) os)
     PIECES ORIENTATION_TABLE"
  by code_simp

lemma collect_andthen:
  assumes "map g xs = map Inr ys"
  shows "collect (\<lambda>x. andthen (g x) (\<lambda>y. Inr (h y))) xs = Inr (map h ys)"
  using assms
proof (induction xs arbitrary: ys)
  case Nil
  then show ?case by simp
next
  case (Cons x xs)
  then obtain y ys' where ys: "ys = y # ys'" "g x = Inr y" "map g xs = map Inr ys'"
    by (cases ys) auto
  with Cons.IH [OF ys(3)] show ?case by simp
qed

lemma precompute_piece_orientations_eq:
  "precompute_piece_orientations it = Inr (map it ORIENTATION_TABLE)"
  unfolding precompute_piece_orientations_def
  using collect_andthen [OF orientation_table, of it]
  by (simp add: get_all_orientations_def [abs_def])


lemma tiled_after_placement:
  assumes t: "tiled pos valid_cells b u"
    and k: "k < length pos" "\<not> u ! k" "piece \<in> set (pos ! k)"
    and fits: "footprint piece sr sc \<subseteq> empty_cells valid_cells b"
  shows "tiled pos valid_cells (stamp b (footprint piece sr sc) (int k)) (u[k := True])"
proof -
  let ?F = "footprint piece sr sc"
  let ?b = "stamp b ?F (int k)"
  let ?u = "u[k := True]"
  from t have len: "length u = length pos"
    and cells: "\<forall>rc \<in> valid_cells. b rc = - 1 \<or> (\<exists>j < length pos. b rc = int j \<and> u ! j)"
    and pieces: "\<forall>j < length pos. u ! j \<longrightarrow>
         (\<exists>piece \<in> set (pos ! j). \<exists>start_row start_col.
            {rc \<in> valid_cells. b rc = int j} = footprint piece start_row start_col)"
    unfolding tiled_def by blast+
  have F: "rc \<in> valid_cells \<and> b rc = - 1" if "rc \<in> ?F" for rc
    using fits that by (auto simp: empty_cells_def)
  have nok: "b rc \<noteq> int k" if "rc \<in> valid_cells" for rc
  proof
    assume a: "b rc = int k"
    with cells that obtain j where "b rc = int j" "u ! j" by force
    with a k(2) show False by simp
  qed
  have 1: "length ?u = length pos" using len by simp
  have 2: "\<forall>rc \<in> valid_cells. ?b rc = - 1 \<or> (\<exists>j < length pos. ?b rc = int j \<and> ?u ! j)"
  proof
    fix rc assume v: "rc \<in> valid_cells"
    show "?b rc = - 1 \<or> (\<exists>j < length pos. ?b rc = int j \<and> ?u ! j)"
    proof (cases "rc \<in> ?F")
      case True
      then have "?b rc = int k" "?u ! k" using k(1) len by (simp_all add: stamp_def)
      then show ?thesis using k(1) by blast
    next
      case False
      then have b: "?b rc = b rc" by (simp add: stamp_def)
      from cells v consider "b rc = - 1" | j where "j < length pos" "b rc = int j" "u ! j"
        by blast
      then show ?thesis
      proof cases
        case 1
        then show ?thesis using b by simp
      next
        case 2
        then have "?u ! j" using len by (cases "j = k") simp_all
        then show ?thesis using 2 b by auto
      qed
    qed
  qed
  have 3: "\<forall>j < length pos. ?u ! j \<longrightarrow>
         (\<exists>piece \<in> set (pos ! j). \<exists>start_row start_col.
            {rc \<in> valid_cells. ?b rc = int j} = footprint piece start_row start_col)"
  proof (intro allI impI)
    fix j assume j: "j < length pos" "?u ! j"
    show "\<exists>piece \<in> set (pos ! j). \<exists>start_row start_col.
            {rc \<in> valid_cells. ?b rc = int j} = footprint piece start_row start_col"
    proof (cases "j = k")
      case True
      have "{rc \<in> valid_cells. ?b rc = int k} = ?F"
        using F nok by (auto simp: stamp_def)
      then show ?thesis using k(3) True by blast
    next
      case False
      then have uj: "u ! j" using j by simp
      have "{rc \<in> valid_cells. ?b rc = int j} = {rc \<in> valid_cells. b rc = int j}"
        using F False by (auto simp: stamp_def)
      then show ?thesis using pieces j(1) uj by simp
    qed
  qed
  show ?thesis unfolding tiled_def using 1 2 3 by blast
qed

lemma try_offsets_sound:
  assumes V: "\<forall>rc \<in> valid_cells. on_board rc"
    and k: "keeps valid_cells rec"
    and snd: "sound pos valid_cells rec"
    and p: "piece_id < length pos" "piece \<in> set (pos ! piece_id)"
    and s: "tiled pos valid_cells (board s) (used_pieces s)" "\<not> used_pieces s ! piece_id"
    and r: "try_offsets rec valid_cells row col piece_id piece offs s = Inr (True, s')"
  shows "tiled pos valid_cells (board s') (used_pieces s')
    \<and> empty_cells valid_cells (board s') = {}"
  using s r
proof (induction offs arbitrary: s)
  case Nil
  then show ?case by simp
next
  case (Cons d rest)
  obtain dr dc where d: "d = (dr, dc)" by (cases d)
  from Cons.prems(3) [unfolded d] show ?case
  proof (cases rule: try_offsets_Cons_cases)
    case (skip s1)
    note c = can_place_piece_result [OF skip(1)]
    show ?thesis using Cons.prems c by (intro Cons.IH [OF _ _ skip(2)]) simp_all
  next
    case (found s1 s2 u)
    note c = can_place_piece_result [OF found(1)]
    have fits: "footprint piece (row - dr) (col - dc) \<subseteq> empty_cells valid_cells (board s)"
      using can_place_piece_True_fits [OF V found(1)] .
    then have onb: "\<forall>rc \<in> footprint piece (row - dr) (col - dc). on_board rc"
      using V by (auto simp: empty_cells_def)
    note pl = place_piece_stamp [OF onb found(2)]
    have u: "u = (used_pieces s)[piece_id := True]"
      using found(3) pl c by (simp add: list_set_Inr)
    have "tiled pos valid_cells (board (s2\<lparr>used_pieces := u\<rparr>))
        (used_pieces (s2\<lparr>used_pieces := u\<rparr>))"
      using tiled_after_placement [OF Cons.prems(1) p(1) Cons.prems(2) p(2) fits] pl c u
      by simp
    then show ?thesis using snd found(4) unfolding sound_def by blast
  next
    case (undo s1 s2 u s3 s4 u')
    note c = can_place_piece_result [OF undo(1)]
    note pl = place_piece_result [OF undo(2), of UNIV]
    have "board s3 = board (s2\<lparr>used_pieces := u\<rparr>)
        \<and> used_pieces s3 = used_pieces (s2\<lparr>used_pieces := u\<rparr>)"
      using k undo(4) unfolding keeps_def by blast
    then have r3: "board s3 = board s2" "used_pieces s3 = u" by simp_all
    have b4: "board s4 = board s"
      using undo(1,2) r3(1) undo(5) by (rule undo_restores_board)
    have u4: "used_pieces s4 = u"
      using place_piece_result [OF undo(5) [unfolded remove_piece_eq_place], of UNIV] r3(2)
      by simp
    have uu: "u = (used_pieces s)[piece_id := True]" "piece_id < length (used_pieces s)"
      using undo(3) pl c by (simp_all add: list_set_Inr)
    have "u' = u[piece_id := False]" using undo(6) u4 by (simp add: list_set_Inr)
    then have u': "u' = used_pieces s"
      using uu Cons.prems(2) by (simp add: list_update_same_conv)
    show ?thesis using Cons.prems b4 u' by (intro Cons.IH [OF _ _ undo(7)]) simp_all
  qed
qed

lemma try_orientations_sound:
  assumes V: "\<forall>rc \<in> valid_cells. on_board rc"
    and k: "keeps valid_cells rec"
    and snd: "sound pos valid_cells rec"
    and p: "piece_id < length pos" "set orientations \<subseteq> set (pos ! piece_id)"
    and s: "tiled pos valid_cells (board s) (used_pieces s)" "\<not> used_pieces s ! piece_id"
    and r: "try_orientations rec valid_cells row col piece_id orientations s = Inr (True, s')"
  shows "tiled pos valid_cells (board s') (used_pieces s')
    \<and> empty_cells valid_cells (board s') = {}"
  using p(2) s r
proof (induction orientations arbitrary: s)
  case Nil
  then show ?case by simp
next
  case (Cons piece rest)
  from Cons.prems(4) obtain found s1 where
    o: "try_offsets rec valid_cells row col piece_id piece piece s = Inr (found, s1)"
    and r': "(if found then Inr (True, s1)
        else try_orientations rec valid_cells row col piece_id rest s1) = Inr (True, s')"
    by (auto simp: andthen_eq_Inr)
  have pm: "piece \<in> set (pos ! piece_id)" "set rest \<subseteq> set (pos ! piece_id)"
    using Cons.prems(1) by simp_all
  show ?case
  proof (cases found)
    case True
    with r' o have "try_offsets rec valid_cells row col piece_id piece piece s = Inr (True, s')"
      by simp
    from try_offsets_sound [OF V k snd p(1) pm(1) Cons.prems(2,3) this] show ?thesis .
  next
    case False
    with r' have r'': "try_orientations rec valid_cells row col piece_id rest s1 = Inr (True, s')"
      by simp
    have same: "board s1 = board s" "used_pieces s1 = used_pieces s"
      using try_offsets_keeps [OF k Cons.prems(3) o] False by simp_all
    show ?thesis using Cons.prems(2,3) pm(2) by (intro Cons.IH [OF _ _ _ r'']) (simp_all add: same)
  qed
qed

lemma try_pieces_sound:
  assumes V: "\<forall>rc \<in> valid_cells. on_board rc"
    and k: "keeps valid_cells rec"
    and snd: "sound pos valid_cells rec"
    and rests: "rests = drop piece_id pos"
    and s: "tiled pos valid_cells (board s) (used_pieces s)"
    and r: "try_pieces rec valid_cells row col piece_id rests s = Inr (True, s')"
  shows "tiled pos valid_cells (board s') (used_pieces s')
    \<and> empty_cells valid_cells (board s') = {}"
  using rests s r
proof (induction rests arbitrary: s piece_id)
  case Nil
  then show ?case by simp
next
  case (Cons orientations rest)
  have lt: "piece_id < length pos"
  proof (rule ccontr)
    assume "\<not> piece_id < length pos"
    then have "drop piece_id pos = []" by simp
    with Cons.prems(1) show False by simp
  qed
  have "pos ! piece_id # drop (Suc piece_id) pos = orientations # rest"
    using Cons.prems(1) Cons_nth_drop_Suc [OF lt] by simp
  then have nth: "orientations = pos ! piece_id" and rest: "rest = drop (Suc piece_id) pos"
    by simp_all
  from Cons.prems(3) obtain used where
    g: "list_get (used_pieces s) piece_id = Inr used"
    and r1: "(if used then try_pieces rec valid_cells row col (Suc piece_id) rest s
        else andthen (try_orientations rec valid_cells row col piece_id orientations s)
          (\<lambda>(found, s1). if found then Inr (True, s1)
             else try_pieces rec valid_cells row col (Suc piece_id) rest s1)) = Inr (True, s')"
    by (auto simp: andthen_eq_Inr)
  show ?case
  proof (cases used)
    case True
    with r1 have "try_pieces rec valid_cells row col (Suc piece_id) rest s = Inr (True, s')"
      by simp
    from Cons.IH [OF rest Cons.prems(2) this] show ?thesis .
  next
    case False
    with g have nu: "\<not> used_pieces s ! piece_id" by (simp add: list_get_Inr)
    from r1 False obtain found s1 where
      o: "try_orientations rec valid_cells row col piece_id orientations s = Inr (found, s1)"
      and r2: "(if found then Inr (True, s1)
          else try_pieces rec valid_cells row col (Suc piece_id) rest s1) = Inr (True, s')"
      by (auto simp: andthen_eq_Inr)
    show ?thesis
    proof (cases found)
      case True
      with r2 o have "try_orientations rec valid_cells row col piece_id orientations s = Inr (True, s')"
        by simp
      from try_orientations_sound [OF V k snd lt _ Cons.prems(2) nu this] nth show ?thesis
        by simp
    next
      case f: False
      with r2 have r3: "try_pieces rec valid_cells row col (Suc piece_id) rest s1 = Inr (True, s')"
        by simp
      have same: "board s1 = board s" "used_pieces s1 = used_pieces s"
        using try_orientations_keeps [OF k nu o] f by simp_all
      show ?thesis using Cons.prems(2) by (intro Cons.IH [OF rest _ r3]) (simp add: same)
    qed
  qed
qed

lemma solve_sound:
  assumes V: "\<forall>rc \<in> valid_cells. on_board rc"
  shows "sound pos valid_cells (solve n pos valid_cells)"
proof (induction n)
  case 0
  then show ?case by (simp add: sound_def)
next
  case (Suc n)
  show ?case
    unfolding sound_def
  proof (intro allI impI)
    fix s s'
    assume a: "tiled pos valid_cells (board s) (used_pieces s)
      \<and> solve (Suc n) pos valid_cells s = Inr (True, s')"
    then obtain empty s1 where f: "find_first_empty s valid_cells = Inr (empty, s1)"
      and r: "(case empty of None \<Rightarrow> Inr (True, s1)
          | Some (row, col) \<Rightarrow>
              try_pieces (solve n pos valid_cells) valid_cells row col 0 pos s1) = Inr (True, s')"
      by (auto simp: andthen_eq_Inr)
    note e = find_first_empty_result [OF f]
    have t1: "tiled pos valid_cells (board s1) (used_pieces s1)" using a e by simp
    show "tiled pos valid_cells (board s') (used_pieces s')
      \<and> empty_cells valid_cells (board s') = {}"
    proof (cases empty)
      case None
      with r have "s' = s1" by simp
      moreover have "empty_cells valid_cells (board s) = {}"
        using e None V by (auto simp: empty_cells_def)
      ultimately show ?thesis using t1 e by simp
    next
      case (Some rc)
      obtain row col where rc: "rc = (row, col)" by (cases rc)
      from r Some rc have
        "try_pieces (solve n pos valid_cells) valid_cells row col 0 pos s1 = Inr (True, s')"
        by simp
      from try_pieces_sound [OF V solve_keeps Suc _ t1 this] show ?thesis by simp
    qed
  qed
qed

subsection \<open>A full board uses every piece\<close>

lemma card_footprint:
  assumes "distinct piece"
  shows "card (footprint piece sr sc) = length piece"
proof -
  have "inj_on (\<lambda>(dr, dc). (sr + dr, sc + dc)) (set piece)"
    by (auto simp: inj_on_def)
  then have "card (footprint piece sr sc) = card (set piece)"
    unfolding footprint_def by (rule card_image)
  then show ?thesis using assms by (simp add: distinct_card)
qed

lemma full_tiling_uses_all:
  assumes t: "tiled pos valid_cells b u"
    and full: "empty_cells valid_cells b = {}"
    and fin: "finite valid_cells"
    and total: "card valid_cells = (\<Sum>k<length pos. size_of k)"
    and shapes: "\<forall>k < length pos. \<forall>piece \<in> set (pos ! k). distinct piece \<and> length piece = size_of k"
    and pos: "\<forall>k < length pos. 0 < size_of k"
    and k: "k < length pos"
  shows "u ! k \<and> card {rc \<in> valid_cells. b rc = int k} = size_of k"
proof -
  define C where "C j = {rc \<in> valid_cells. b rc = int j}" for j
  from t have cells: "\<forall>rc \<in> valid_cells. b rc = - 1 \<or> (\<exists>j < length pos. b rc = int j \<and> u ! j)"
    and pieces: "\<forall>j < length pos. u ! j \<longrightarrow>
         (\<exists>piece \<in> set (pos ! j). \<exists>start_row start_col.
            {rc \<in> valid_cells. b rc = int j} = footprint piece start_row start_col)"
    unfolding tiled_def by blast+
  have ne: "b rc \<noteq> - 1" if "rc \<in> valid_cells" for rc
  proof
    assume "b rc = - 1"
    with that have "rc \<in> empty_cells valid_cells b" by (simp add: empty_cells_def)
    with full show False by simp
  qed
  have un: "valid_cells = (\<Union>j \<in> {..<length pos}. C j)"
  proof (intro equalityI subsetI)
    fix rc assume v: "rc \<in> valid_cells"
    with cells ne obtain j where "j < length pos" "b rc = int j" by blast
    with v show "rc \<in> (\<Union>j \<in> {..<length pos}. C j)" by (auto simp: C_def)
  next
    fix rc assume "rc \<in> (\<Union>j \<in> {..<length pos}. C j)"
    then show "rc \<in> valid_cells" by (auto simp: C_def)
  qed
  have "card (\<Union>j \<in> {..<length pos}. C j) = (\<Sum>j \<in> {..<length pos}. card (C j))"
  proof (rule card_UN_disjoint)
    show "finite {..<length pos}" by simp
    show "\<forall>j \<in> {..<length pos}. finite (C j)" using fin by (simp add: C_def)
    show "\<forall>i \<in> {..<length pos}. \<forall>j \<in> {..<length pos}. i \<noteq> j \<longrightarrow> C i \<inter> C j = {}"
      by (auto simp: C_def)
  qed
  then have eq: "(\<Sum>j \<in> {..<length pos}. card (C j)) = (\<Sum>j \<in> {..<length pos}. size_of j)"
    using total un by simp
  have used: "card (C j) = size_of j" if "j < length pos" "u ! j" for j
  proof -
    from pieces that obtain piece sr sc where
      p: "piece \<in> set (pos ! j)" "C j = footprint piece sr sc"
      unfolding C_def by blast
    then have "distinct piece" "length piece = size_of j" using shapes that(1) by blast+
    then show ?thesis using p(2) by (simp add: card_footprint)
  qed
  have unused: "C j = {}" if "j < length pos" "\<not> u ! j" for j
  proof -
    have False if "rc \<in> C j" for rc
    proof -
      from that have v: "rc \<in> valid_cells" "b rc = int j" by (simp_all add: C_def)
      with cells ne obtain i where "b rc = int i" "u ! i" by blast
      with v(2) \<open>\<not> u ! j\<close> show False by simp
    qed
    then show ?thesis by blast
  qed
  have le: "card (C j) \<le> size_of j" if "j \<in> {..<length pos}" for j
    using that used [of j] unused [of j] by (cases "u ! j") simp_all
  have "card (C k) = size_of k"
    using eq le by (rule sum_mono_inv) (use k in simp_all)
  moreover from this have "u ! k"
    using unused [OF k] pos k by (cases "u ! k") auto
  ultimately show ?thesis by (simp add: C_def)
qed

lemma sum_piece_sizes: "(\<Sum>k<length ORIENTATION_TABLE. length (PIECES ! k)) = 41"
proof -
  have "length ORIENTATION_TABLE = 8" by (simp add: ORIENTATION_TABLE_def)
  moreover have "{..<8::nat} = {0, 1, 2, 3, 4, 5, 6, 7}" by auto
  ultimately show ?thesis by (simp add: PIECES_def)
qed

lemma iterated_table:
  assumes "set_iteration it"
  defines "pos \<equiv> map it ORIENTATION_TABLE"
  shows "length pos = 8" "length pos = length PIECES"
    "\<forall>k < length pos. set (pos ! k) = set (ORIENTATION_TABLE ! k)"
    "\<forall>k < length pos. \<forall>piece \<in> set (pos ! k). distinct piece \<and> length piece = length (PIECES ! k)"
    "\<forall>k < length pos. 0 < length (PIECES ! k)"
proof -
  have l: "length ORIENTATION_TABLE = 8" "length PIECES = 8"
    by (simp_all add: ORIENTATION_TABLE_def PIECES_def)
  show "length pos = 8" "length pos = length PIECES" by (simp_all add: pos_def l)
  note sh = orientation_table_shapes [unfolded list_all2_conv_all_nth list_all_iff]
  show s: "\<forall>k < length pos. set (pos ! k) = set (ORIENTATION_TABLE ! k)"
  proof (intro allI impI)
    fix k assume "k < length pos"
    then have k: "k < length ORIENTATION_TABLE" "k < length PIECES" by (simp_all add: pos_def l)
    then have "distinct (ORIENTATION_TABLE ! k)" using sh by blast
    then have "set (it (ORIENTATION_TABLE ! k)) = set (ORIENTATION_TABLE ! k)"
      using assms(1) by (simp add: set_iteration_def)
    then show "set (pos ! k) = set (ORIENTATION_TABLE ! k)" using k by (simp add: pos_def)
  qed
  show "\<forall>k < length pos. \<forall>piece \<in> set (pos ! k). distinct piece \<and> length piece = length (PIECES ! k)"
  proof (intro allI impI ballI)
    fix k piece assume a: "k < length pos" "piece \<in> set (pos ! k)"
    then have "k < length PIECES" "piece \<in> set (ORIENTATION_TABLE ! k)"
      using s by (simp_all add: pos_def l)
    then show "distinct piece \<and> length piece = length (PIECES ! k)" using sh by blast
  qed
  show "\<forall>k < length pos. 0 < length (PIECES ! k)"
  proof (intro allI impI)
    fix k assume "k < length pos"
    then have "k < length PIECES" by (simp add: pos_def l)
    then have "PIECES ! k \<in> set PIECES" by simp
    then show "0 < length (PIECES ! k)" using PIECES_nonempty by blast
  qed
qed

subsection \<open>The search of \<open>solve_puzzle\<close>\<close>

lemma run_search_eq:
  assumes "andthen (py_index MONTH_NAMES (month - 1)) (dict_get MONTH_TO_POS) = Inr mp"
    and "dict_get DAY_TO_POS day = Inr dp"
  shows "run_search depth it month day
    = solve depth (map it ORIENTATION_TABLE) (playable mp dp) (initial_state (playable mp dp))"
proof -
  from assms(1) obtain name where "py_index MONTH_NAMES (month - 1) = Inr name"
    "dict_get MONTH_TO_POS name = Inr mp"
    by (auto simp: andthen_eq_Inr)
  then show ?thesis
    using assms(2) by (simp add: run_search_def precompute_piece_orientations_eq)
qed

lemma playable_on_board: "\<forall>rc \<in> playable mp dp. on_board rc"
  by (simp add: playable_def get_all_valid_cells_eq)

lemma initial_state_simps:
  "board (initial_state cells) = (\<lambda>rc. if rc \<in> cells then - 1 else - 2)"
  "used_pieces (initial_state cells) = replicate 8 False"
  "accesses (initial_state cells) = []"
  by (simp_all add: initial_state_def PIECES_def eval_nat_numeral)

lemma unused_initial_state: "unused (initial_state cells) = 8"
  by (simp add: unused_def initial_state_simps)

lemma empty_cells_initial_state: "empty_cells cells (board (initial_state cells)) = cells"
  by (auto simp: empty_cells_def initial_state_simps)

lemma tiled_initial_state:
  assumes "length pos = 8"
  shows "tiled pos cells (board (initial_state cells)) (used_pieces (initial_state cells))"
  unfolding tiled_def using assms by (simp add: initial_state_simps)

lemma search_outcome:
  assumes V: "\<forall>rc \<in> cells. on_board rc" and len: "length pos = 8" and depth: "8 < depth"
  shows "\<exists>found s. solve depth pos cells (initial_state cells) = Inr (found, s)
    \<and> continues cells (initial_state cells) s
    \<and> (found \<longrightarrow> tiled pos cells (board s) (used_pieces s) \<and> empty_cells cells (board s) = {})
    \<and> (completable pos cells (board (initial_state cells)) (used_pieces (initial_state cells))
         \<longrightarrow> found)"
proof -
  let ?s0 = "initial_state cells"
  have "length (used_pieces ?s0) = length pos \<and> unused ?s0 < depth"
    using len depth by (simp add: initial_state_simps unused_initial_state)
  with solve_thorough [OF V, of pos depth] obtain found s where
    r: "solve depth pos cells ?s0 = Inr (found, s)"
    and c: "completable pos cells (board ?s0) (used_pieces ?s0) \<longrightarrow> found"
    unfolding thorough_def by blast
  have "continues cells ?s0 s"
    using solve_keeps [of cells depth pos] r unfolding keeps_def by blast
  moreover have "tiled pos cells (board s) (used_pieces s) \<and> empty_cells cells (board s) = {}"
    if found
  proof -
    have "solve depth pos cells ?s0 = Inr (True, s)" using r that by simp
    then show ?thesis
      using solve_sound [OF V, of pos depth] tiled_initial_state [OF len, of cells]
      unfolding sound_def by blast
  qed
  ultimately show ?thesis using r c by blast
qed

lemma tiled_full_solution:
  assumes it: "set_iteration it"
    and t: "tiled (map it ORIENTATION_TABLE) cells b u"
    and full: "empty_cells cells b = {}"
    and fin: "finite cells" and card: "card cells = 41"
  shows "solution it cells b"
proof -
  let ?pos = "map it ORIENTATION_TABLE"
  note tab = iterated_table [OF it]
  have l8: "length ?pos = 8" "length PIECES = 8" using tab(1,2) by simp_all
  have total: "card cells = (\<Sum>k<length ?pos. length (PIECES ! k))"
    using sum_piece_sizes card by simp
  note all = full_tiling_uses_all [OF t full fin total tab(4) tab(5)]
  from t have cells: "\<forall>rc \<in> cells. b rc = - 1 \<or> (\<exists>j < length ?pos. b rc = int j \<and> u ! j)"
    and pieces: "\<forall>j < length ?pos. u ! j \<longrightarrow>
         (\<exists>piece \<in> set (?pos ! j). \<exists>start_row start_col.
            {rc \<in> cells. b rc = int j} = footprint piece start_row start_col)"
    unfolding tiled_def by blast+
  have 1: "\<forall>rc \<in> cells. \<exists>k < length PIECES. b rc = int k"
  proof
    fix rc assume v: "rc \<in> cells"
    have "b rc \<noteq> - 1"
    proof
      assume "b rc = - 1"
      with v have "rc \<in> empty_cells cells b" by (simp add: empty_cells_def)
      with full show False by simp
    qed
    with cells v show "\<exists>k < length PIECES. b rc = int k" using l8 by auto
  qed
  define good where "good k p \<longleftrightarrow>
         (\<exists>os. get_all_orientations it (PIECES ! k) = Inr os \<and> fst p \<in> set os)
       \<and> placement_cells p = {rc \<in> cells. b rc = int k}
       \<and> card (placement_cells p) = length (PIECES ! k)" for k and p :: "shape \<times> int \<times> int"
  have "\<exists>p. k < length PIECES \<longrightarrow> good k p" for k
  proof (cases "k < length PIECES")
    case False
    then show ?thesis by simp
  next
    case k: True
    have k': "k < length ?pos" using k l8 by simp
    from pieces all [OF k'] k' obtain piece sr sc where
      p: "piece \<in> set (?pos ! k)" "{rc \<in> cells. b rc = int k} = footprint piece sr sc"
      by blast
    have "map (orientations_loop 4 []) PIECES ! k = map Inr ORIENTATION_TABLE ! k"
      by (simp only: orientation_table)
    then have "orientations_loop 4 [] (PIECES ! k) = Inr (ORIENTATION_TABLE ! k)"
      using k k' by simp
    then have g: "get_all_orientations it (PIECES ! k) = Inr (?pos ! k)"
      using k' by (simp add: get_all_orientations_def)
    have pc: "placement_cells (piece, sr, sc) = {rc \<in> cells. b rc = int k}"
      using p(2) by (simp add: placement_cells_def)
    have "card (placement_cells (piece, sr, sc)) = length (PIECES ! k)"
      using all [OF k'] pc by simp
    with g pc p(1) have "good k (piece, sr, sc)" unfolding good_def by simp
    then show ?thesis by blast
  qed
  then have "\<exists>pl. \<forall>k. k < length PIECES \<longrightarrow> good k (pl k)" by (intro choice allI)
  then obtain pl where pl: "\<forall>k < length PIECES. good k (pl k)" by blast
  have "placement_cells (pl j) \<inter> placement_cells (pl k) = {}"
    if "j < length PIECES" "k < length PIECES" "j \<noteq> k" for j k
  proof -
    have "placement_cells (pl j) = {rc \<in> cells. b rc = int j}"
      "placement_cells (pl k) = {rc \<in> cells. b rc = int k}"
      using pl that(1,2) unfolding good_def by blast+
    then show ?thesis using that(3) by auto
  qed
  with 1 pl show ?thesis unfolding solution_def good_def by blast
qed

subsection \<open>A tiling for the first of January\<close>

lemma january_first_orientations:
  "list_all (\<lambda>k. fst (JANUARY_FIRST ! k) \<in> set (ORIENTATION_TABLE ! k)) [0..<8]"
  by code_simp

lemma january_first_disjoint:
  "list_all (\<lambda>j. list_all (\<lambda>k. j = k
      \<or> placement_cells (JANUARY_FIRST ! j) \<inter> placement_cells (JANUARY_FIRST ! k) = {}) [0..<8])
     [0..<8]"
  by code_simp

lemma january_first_cover:
  "(\<Union>k \<in> set [0..<8]. placement_cells (JANUARY_FIRST ! k)) = playable (0, 0) (2, 0)"
  by code_simp

lemma january_first_completable:
  assumes "set_iteration it"
  shows "completable (map it ORIENTATION_TABLE) (playable (0, 0) (2, 0))
     (board (initial_state (playable (0, 0) (2, 0))))
     (used_pieces (initial_state (playable (0, 0) (2, 0))))"
proof -
  let ?pos = "map it ORIENTATION_TABLE"
  let ?pl = "\<lambda>k. JANUARY_FIRST ! k"
  note tab = iterated_table [OF assms]
  have 1: "\<forall>k < length ?pos. \<not> replicate 8 False ! k \<longrightarrow> fst (?pl k) \<in> set (?pos ! k)"
  proof (intro allI impI)
    fix k assume k: "k < length ?pos"
    then have "k \<in> set [0..<8]" using tab(1) by simp
    then have "fst (?pl k) \<in> set (ORIENTATION_TABLE ! k)"
      using january_first_orientations unfolding list_all_iff by blast
    then show "fst (?pl k) \<in> set (?pos ! k)" using tab(3) k by blast
  qed
  have 2: "\<forall>j < length ?pos. \<forall>k < length ?pos.
      \<not> replicate 8 False ! j \<longrightarrow> \<not> replicate 8 False ! k \<longrightarrow> j \<noteq> k \<longrightarrow>
      placement_cells (?pl j) \<inter> placement_cells (?pl k) = {}"
  proof (intro allI impI)
    fix j k assume "j < length ?pos" "k < length ?pos" "j \<noteq> k"
    then have "j \<in> set [0..<8]" "k \<in> set [0..<8]" "j \<noteq> k" using tab(1) by simp_all
    then show "placement_cells (?pl j) \<inter> placement_cells (?pl k) = {}"
      using january_first_disjoint unfolding list_all_iff by blast
  qed
  have "(k < length ?pos \<and> \<not> replicate 8 False ! k) = (k \<in> set [0..<8])" for k
    using tab(1) by (cases "k < 8") simp_all
  then have "{k. k < length ?pos \<and> \<not> replicate 8 False ! k} = set [0..<8]"
    by (simp only: Collect_mem_eq)
  then have 3: "empty_cells (playable (0, 0) (2, 0)) (board (initial_state (playable (0, 0) (2, 0))))
      = (\<Union>k \<in> {k. k < length ?pos \<and> \<not> replicate 8 False ! k}. placement_cells (?pl k))"
    by (simp only: empty_cells_initial_state january_first_cover)
  show ?thesis
    unfolding completable_def initial_state_simps(2)
    by (intro exI [of _ ?pl] conjI) (rule 1, rule 2, rule 3)
qed

section \<open>The claims about \<open>solve_puzzle\<close>\<close>

lemma solve_puzzle_Some:
  "solve_puzzle depth it month day = Inr (Some b) \<longleftrightarrow>
     (\<exists>s. run_search depth it month day = Inr (True, s) \<and> b = board s)"
  by (auto simp: solve_puzzle_def andthen_eq_Inr split: if_splits)

lemma solve_puzzle_of_search:
  "run_search depth it month day = Inr (found, s) \<Longrightarrow>
   solve_puzzle depth it month day = Inr (if found then Some (board s) else None)"
  by (simp add: solve_puzzle_def)

lemma board_after_outside:
  assumes "\<forall>a \<in> set log. access_cell a \<in> cells" "\<forall>rc \<in> cells. on_board rc" "p \<notin> cells"
  shows "board_after log b p = b p"
  using assms(1)
proof (induction log)
  case Nil
  then show ?case by simp
next
  case (Cons a log)
  show ?case
  proof (cases a)
    case (Rd rc)
    then show ?thesis using Cons by simp
  next
    case (Wr rc v)
    then have "rc \<in> cells" using Cons.prems by simp
    then have "np_index rc = Inr rc" "rc \<noteq> p"
      using assms(2,3) by (auto simp: np_index_on_board)
    then show ?thesis using Wr Cons by simp
  qed
qed

lemma january_lookups:
  "andthen (py_index MONTH_NAMES (1 - 1)) (dict_get MONTH_TO_POS) = Inr (0, 0)"
  "dict_get DAY_TO_POS 1 = Inr (2, 0)"
  using month_lookup [of 1] day_lookup [of 1] by simp_all

lemma january_first_succeeds:
  assumes "set_iteration it" "8 < depth"
  shows "\<exists>b. solve_puzzle depth it 1 1 = Inr (Some b) \<and> solution it (playable (0, 0) (2, 0)) b"
proof -
  let ?V = "playable (0, 0) (2, 0)"
  let ?pos = "map it ORIENTATION_TABLE"
  note tab = iterated_table [OF assms(1)]
  have eq: "run_search depth it 1 1 = solve depth ?pos ?V (initial_state ?V)"
    using january_lookups by (rule run_search_eq)
  from search_outcome [OF playable_on_board tab(1) assms(2), of "(0, 0)" "(2, 0)"]
    january_first_completable [OF assms(1)]
  obtain s where s: "solve depth ?pos ?V (initial_state ?V) = Inr (True, s)"
    "tiled ?pos ?V (board s) (used_pieces s)" "empty_cells ?V (board s) = {}"
    by auto
  have pf: "finite ?V" "card ?V = 41"
    using playable_facts(2,3) [of 1 1] by simp_all
  have "solution it ?V (board s)"
    using assms(1) s(2,3) pf by (rule tiled_full_solution)
  moreover have "solve_puzzle depth it 1 1 = Inr (Some (board s))"
    using solve_puzzle_of_search [of depth it 1 1 True s] eq s(1) by simp
  ultimately show ?thesis by blast
qed

text \<open>
  Claim C1. For every month in 1..12 and day in 1..31, if \<open>solve_puzzle\<close> returns a
  board, then every playable cell (the 43 non-blocked cells except the two target cells)
  holds one piece identifier in 0..7, each of the 8 pieces appears exactly once, as one
  placement of one of its orientations, and covers exactly its own cell count (6 cells
  for piece 0, 5 cells for each of pieces 1..7, 41 cells in total), and the placements
  of two distinct pieces share no cell.
\<close>

theorem solution_is_tiling:
  assumes "1 \<le> month" "month \<le> 12" "1 \<le> day" "day \<le> 31" "set_iteration it"
    and "solve_puzzle depth it month day = Inr (Some b)"
  shows "\<exists>month_pos day_pos.
      andthen (py_index MONTH_NAMES (month - 1)) (dict_get MONTH_TO_POS) = Inr month_pos
    \<and> dict_get DAY_TO_POS day = Inr day_pos
    \<and> solution it (playable month_pos day_pos) b
    \<and> card (playable month_pos day_pos) = 41
    \<and> card get_all_valid_cells = 43
    \<and> map length PIECES = [6, 5, 5, 5, 5, 5, 5, 5]"
proof -
  define mp where "mp = ((month - 1) div 6, (month - 1) mod 6)"
  define dp where "dp = ((day - 1) div 7 + 2, (day - 1) mod 7)"
  let ?V = "playable mp dp"
  let ?pos = "map it ORIENTATION_TABLE"
  note tab = iterated_table [OF assms(5)]
  have m: "andthen (py_index MONTH_NAMES (month - 1)) (dict_get MONTH_TO_POS) = Inr mp"
    using month_lookup [OF assms(1,2)] by (simp add: mp_def)
  have d: "dict_get DAY_TO_POS day = Inr dp"
    using day_lookup [OF assms(3,4)] by (simp add: dp_def)
  note pf = playable_facts [OF assms(1-4), folded mp_def dp_def]
  from assms(6) obtain s where s: "run_search depth it month day = Inr (True, s)" "b = board s"
    unfolding solve_puzzle_Some by blast
  then have "solve depth ?pos ?V (initial_state ?V) = Inr (True, s)"
    using run_search_eq [OF m d] by simp
  then have "tiled ?pos ?V (board s) (used_pieces s) \<and> empty_cells ?V (board s) = {}"
    using solve_sound [OF pf(1), of ?pos depth] tiled_initial_state [OF tab(1), of ?V]
    unfolding sound_def by blast
  then have "solution it ?V b"
    using tiled_full_solution [OF assms(5) _ _ pf(2,3)] s(2) by blast
  moreover have "map length PIECES = [6, 5, 5, 5, 5, 5, 5, 5]" by (simp add: PIECES_def)
  ultimately have "andthen (py_index MONTH_NAMES (month - 1)) (dict_get MONTH_TO_POS) = Inr mp
    \<and> dict_get DAY_TO_POS day = Inr dp
    \<and> solution it (playable mp dp) b
    \<and> card (playable mp dp) = 41
    \<and> card get_all_valid_cells = 43
    \<and> map length PIECES = [6, 5, 5, 5, 5, 5, 5, 5]"
    using m d pf(3) card_valid_cells by blast
  then have "\<exists>day_pos.
      andthen (py_index MONTH_NAMES (month - 1)) (dict_get MONTH_TO_POS) = Inr mp
    \<and> dict_get DAY_TO_POS day = Inr day_pos
    \<and> solution it (playable mp day_pos) b
    \<and> card (playable mp day_pos) = 41
    \<and> card get_all_valid_cells = 43
    \<and> map length PIECES = [6, 5, 5, 5, 5, 5, 5, 5]"
    by (rule exI [where x = dp])
  then show ?thesis by (rule exI [where x = mp])
qed

theorem solution_is_tiling_witness:
  "(1::int) \<le> 1 \<and> (1::int) \<le> 12 \<and> (1::int) \<le> 31
   \<and> set_iteration (id :: shape list \<Rightarrow> shape list)
   \<and> (\<exists>b. solve_puzzle 9 id 1 1 = Inr (Some b)
        \<and> (\<exists>month_pos day_pos.
              andthen (py_index MONTH_NAMES (1 - 1)) (dict_get MONTH_TO_POS) = Inr month_pos
            \<and> dict_get DAY_TO_POS 1 = Inr day_pos
            \<and> solution id (playable month_pos day_pos) b
            \<and> card (playable month_pos day_pos) = 41))"
proof -
  obtain b where b: "solve_puzzle 9 id 1 1 = Inr (Some b)"
    using january_first_succeeds [OF set_iteration_id, of 9] by auto
  have r: "(1::int) \<le> 1" "(1::int) \<le> 12" "(1::int) \<le> 31" by simp_all
  from solution_is_tiling [OF r(1,2) r(1,3) set_iteration_id b] b set_iteration_id
  show ?thesis by auto
qed

text \<open>
  Claim C7. \<open>solve_puzzle(1, 1)\<close>, which excludes the month cell (0,0) of January and
  the day cell (2,0) of day 1, returns a board that covers the remaining 41 playable
  cells with all 8 pieces, each used once. This holds for every iteration order of the
  orientation sets.
\<close>

theorem january_first_is_solved:
  assumes "set_iteration it" "8 < depth"
  shows "andthen (py_index MONTH_NAMES (1 - 1)) (dict_get MONTH_TO_POS) = Inr (0, 0)
    \<and> dict_get DAY_TO_POS 1 = Inr (2, 0)
    \<and> (\<exists>b. solve_puzzle depth it 1 1 = Inr (Some b) \<and> solution it (playable (0, 0) (2, 0)) b)
    \<and> card (playable (0, 0) (2, 0)) = 41"
  using january_lookups january_first_succeeds [OF assms] playable_facts(3) [of 1 1]
  by simp

theorem january_first_is_solved_witness:
  "set_iteration (id :: shape list \<Rightarrow> shape list) \<and> (8::nat) < 9
   \<and> (\<exists>b. solve_puzzle 9 id 1 1 = Inr (Some b) \<and> solution id (playable (0, 0) (2, 0)) b)"
proof -
  have d: "(8::nat) < 9" by simp
  from january_first_is_solved [OF set_iteration_id d] set_iteration_id d show ?thesis by blast
qed

text \<open>
  Claim C9. For every month in 1..12 and every day in 1..31, also for pairs that are
  not calendar dates, \<open>solve_puzzle\<close> returns either a board or \<open>None\<close> and raises no
  exception.
\<close>

theorem solve_puzzle_never_raises:
  assumes "1 \<le> month" "month \<le> 12" "1 \<le> day" "day \<le> 31" "8 < depth"
  shows "solve_puzzle depth it month day = Inr None
    \<or> (\<exists>b. solve_puzzle depth it month day = Inr (Some b))"
proof -
  define mp where "mp = ((month - 1) div 6, (month - 1) mod 6)"
  define dp where "dp = ((day - 1) div 7 + 2, (day - 1) mod 7)"
  have m: "andthen (py_index MONTH_NAMES (month - 1)) (dict_get MONTH_TO_POS) = Inr mp"
    using month_lookup [OF assms(1,2)] by (simp add: mp_def)
  have d: "dict_get DAY_TO_POS day = Inr dp"
    using day_lookup [OF assms(3,4)] by (simp add: dp_def)
  have "length (map it ORIENTATION_TABLE) = 8" by (simp add: ORIENTATION_TABLE_def)
  from search_outcome [OF playable_on_board this assms(5), of mp dp]
  obtain found s where "run_search depth it month day = Inr (found, s)"
    unfolding run_search_eq [OF m d] by blast
  from solve_puzzle_of_search [OF this] show ?thesis by (cases found) simp_all
qed

theorem solve_puzzle_never_raises_witness:
  "(1::int) \<le> 2 \<and> (2::int) \<le> 12 \<and> (1::int) \<le> 31 \<and> (31::int) \<le> 31 \<and> (8::nat) < 9
   \<and> (solve_puzzle 9 id 2 31 = Inr None \<or> (\<exists>b. solve_puzzle 9 id 2 31 = Inr (Some b)))"
proof -
  have r: "(1::int) \<le> 2" "(2::int) \<le> 12" "(1::int) \<le> 31" "(31::int) \<le> 31" "(8::nat) < 9"
    by simp_all
  from solve_puzzle_never_raises [OF r, of id] r show ?thesis by blast
qed

text \<open>
  Claim C3. Whenever \<open>solve\<close> returns \<open>False\<close>, the board array and the list
  \<open>used_pieces\<close> are exactly as they were at entry: every placement committed inside
  the call has been undone. This holds for all arguments of \<open>solve\<close>.
\<close>

theorem solve_failure_restores_state:
  assumes "solve depth pieces_orientations valid_cells s = Inr (False, s')"
  shows "board s' = board s \<and> used_pieces s' = used_pieces s"
  using solve_keeps [of valid_cells depth pieces_orientations] assms
  unfolding keeps_def by blast

lemma small_search_fails:
  "case solve 2 [[[(0, 0)]]] {(0, 0), (0, 1)}
       \<lparr>board = (\<lambda>rc. - 1), used_pieces = [False], accesses = []\<rparr> of
     Inl e \<Rightarrow> False
   | Inr (ok, s') \<Rightarrow> \<not> ok
       \<and> accesses s' = [Wr (0, 0) (- 1), Rd (0, 1), Rd (0, 0), Wr (0, 0) 0, Rd (0, 0), Rd (0, 0)]"
  by code_simp

theorem solve_failure_restores_state_witness:
  "\<exists>s'. solve 2 [[[(0, 0)]]] {(0, 0), (0, 1)}
          \<lparr>board = (\<lambda>rc. - 1), used_pieces = [False], accesses = []\<rparr> = Inr (False, s')
     \<and> accesses s' = [Wr (0, 0) (- 1), Rd (0, 1), Rd (0, 0), Wr (0, 0) 0, Rd (0, 0), Rd (0, 0)]
     \<and> board s' = (\<lambda>rc. - 1) \<and> used_pieces s' = [False]"
proof -
  let ?s = "\<lparr>board = (\<lambda>rc. - 1), used_pieces = [False], accesses = []\<rparr>"
  obtain s' where r: "solve 2 [[[(0, 0)]]] {(0, 0), (0, 1)} ?s = Inr (False, s')"
    and a: "accesses s' = [Wr (0, 0) (- 1), Rd (0, 1), Rd (0, 0), Wr (0, 0) 0, Rd (0, 0), Rd (0, 0)]"
    using small_search_fails by (auto split: sum.splits)
  from solve_failure_restores_state [OF r] r a show ?thesis by auto
qed



lemma continues_accesses:
  assumes "continues cells s s'" "\<forall>rc \<in> cells. on_board rc" "accesses s = []"
  shows "\<forall>a \<in> set (accesses s'). access_cell a \<in> cells \<and> on_board (access_cell a)
    \<and> np_index (access_cell a) = Inr (access_cell a)"
  using assms unfolding continues_def by (auto simp: np_index_on_board)

text \<open>
  Claim C10. The anchors that \<open>solve\<close> computes can be negative or beyond the board,
  but \<open>can_place_piece\<close> indexes the board only at a coordinate that has passed the
  \<open>valid_cells\<close> membership test, so every read and write of the board during a
  search of \<open>solve_puzzle\<close> is at a coordinate inside the array, where the index pair
  resolves to itself: no negative index ever wraps around.
\<close>

theorem board_accesses_in_range:
  assumes "1 \<le> month" "month \<le> 12" "1 \<le> day" "day \<le> 31" "8 < depth"
  shows "(can_place_piece s piece start_row start_col valid_cells = Inr (ok, s') \<longrightarrow>
           (\<exists>new. accesses s' = new @ accesses s \<and> (\<forall>a \<in> set new. access_cell a \<in> valid_cells)))
    \<and> (\<exists>found sf. run_search depth it month day = Inr (found, sf)
          \<and> (\<forall>a \<in> set (accesses sf). on_board (access_cell a)
                \<and> np_index (access_cell a) = Inr (access_cell a)))"
proof -
  define mp where "mp = ((month - 1) div 6, (month - 1) mod 6)"
  define dp where "dp = ((day - 1) div 7 + 2, (day - 1) mod 7)"
  have m: "andthen (py_index MONTH_NAMES (month - 1)) (dict_get MONTH_TO_POS) = Inr mp"
    using month_lookup [OF assms(1,2)] by (simp add: mp_def)
  have d: "dict_get DAY_TO_POS day = Inr dp"
    using day_lookup [OF assms(3,4)] by (simp add: dp_def)
  have "length (map it ORIENTATION_TABLE) = 8" by (simp add: ORIENTATION_TABLE_def)
  from search_outcome [OF playable_on_board this assms(5), of mp dp]
  obtain found sf where r: "run_search depth it month day = Inr (found, sf)"
    and c: "continues (playable mp dp) (initial_state (playable mp dp)) sf"
    unfolding run_search_eq [OF m d] by blast
  have "\<forall>a \<in> set (accesses sf). on_board (access_cell a)
      \<and> np_index (access_cell a) = Inr (access_cell a)"
    using continues_accesses [OF c playable_on_board] by (simp add: initial_state_simps)
  with r have 2: "\<exists>found sf. run_search depth it month day = Inr (found, sf)
          \<and> (\<forall>a \<in> set (accesses sf). on_board (access_cell a)
                \<and> np_index (access_cell a) = Inr (access_cell a))"
    by blast
  have 1: "can_place_piece s piece start_row start_col valid_cells = Inr (ok, s') \<longrightarrow>
           (\<exists>new. accesses s' = new @ accesses s \<and> (\<forall>a \<in> set new. access_cell a \<in> valid_cells))"
    using can_place_piece_result [of s piece start_row start_col valid_cells ok s']
    unfolding continues_def by blast
  from 1 2 show ?thesis by (rule conjI)
qed

lemma anchor_off_board_rejected:
  "case can_place_piece (initial_state (playable (0, 0) (2, 0)))
       [(0, 0), (0, 1), (0, 2), (1, 0), (2, 0)] 0 (- 1) (playable (0, 0) (2, 0)) of
     Inl e \<Rightarrow> False
   | Inr (ok, s') \<Rightarrow> \<not> ok \<and> accesses s' = []"
  by code_simp

theorem board_accesses_in_range_witness:
  "(1::int) \<le> 1 \<and> (1::int) \<le> 12 \<and> (1::int) \<le> 31 \<and> (8::nat) < 9
   \<and> (\<exists>s'. can_place_piece (initial_state (playable (0, 0) (2, 0)))
          [(0, 0), (0, 1), (0, 2), (1, 0), (2, 0)] 0 (- 1) (playable (0, 0) (2, 0)) = Inr (False, s')
        \<and> (\<exists>new. accesses s' = new @ accesses (initial_state (playable (0, 0) (2, 0)))
              \<and> list_all (\<lambda>a. access_cell a \<in> playable (0, 0) (2, 0)) new))
   \<and> (\<exists>found sf. run_search 9 id 1 1 = Inr (found, sf)
        \<and> list_all (\<lambda>a. on_board (access_cell a)) (accesses sf))"
proof -
  have r: "(1::int) \<le> 1" "(1::int) \<le> 12" "(1::int) \<le> 31" "(8::nat) < 9" by simp_all
  obtain s' where c: "can_place_piece (initial_state (playable (0, 0) (2, 0)))
          [(0, 0), (0, 1), (0, 2), (1, 0), (2, 0)] 0 (- 1) (playable (0, 0) (2, 0)) = Inr (False, s')"
    using anchor_off_board_rejected by (auto split: sum.splits)
  note t = board_accesses_in_range [OF r(1,2) r(1,3) r(4),
      of "initial_state (playable (0, 0) (2, 0))" "[(0, 0), (0, 1), (0, 2), (1, 0), (2, 0)]"
        0 "- 1" "playable (0, 0) (2, 0)" False s' id]
  from t c r show ?thesis unfolding list_all_iff by blast
qed

subsection \<open>Depth of the recursion\<close>

lemma list_set_error: "list_set xs i v = Inl e \<Longrightarrow> e = IndexError"
  by (simp add: list_set_def split: if_splits)

lemma list_get_error: "list_get xs i = Inl e \<Longrightarrow> e = IndexError"
  by (simp add: list_get_def split: if_splits)

lemma try_offsets_within_depth:
  assumes k: "keeps valid_cells rec" and w: "within_depth n rec"
    and s: "\<not> used_pieces s ! piece_id" "unused s \<le> n"
  shows "try_offsets rec valid_cells row col piece_id piece offs s \<noteq> Inl RecursionError"
  using s
proof (induction offs arbitrary: s)
  case Nil
  then show ?case by simp
next
  case (Cons d rest)
  obtain dr dc where d: "d = (dr, dc)" by (cases d)
  let ?sr = "row - dr" and ?sc = "col - dc"
  let ?T = "try_offsets rec valid_cells row col piece_id piece"
  show ?case
  proof (cases "can_place_piece s piece ?sr ?sc valid_cells")
    case (Inl e)
    then have "?T (d # rest) s = Inl e" "e = IndexError"
      using can_place_piece_error [OF Inl] by (simp_all add: d)
    then show ?thesis by simp
  next
    case (Inr r1)
    obtain okp s1 where r1: "r1 = (okp, s1)" by (cases r1)
    note cp = Inr [unfolded r1]
    note c = can_place_piece_result [OF cp]
    show ?thesis
    proof (cases okp)
      case False
      then have "?T (d # rest) s = ?T rest s1" using cp by (simp add: d)
      moreover have "?T rest s1 \<noteq> Inl RecursionError"
        using Cons.prems c by (intro Cons.IH) (simp_all add: unused_def)
      ultimately show ?thesis by simp
    next
      case True
      show ?thesis
      proof (cases "place_piece s1 piece ?sr ?sc (int piece_id)")
        case (Inl e)
        then have "?T (d # rest) s = Inl e" "e = IndexError"
          using cp True place_piece_error [OF Inl] by (simp_all add: d)
        then show ?thesis by simp
      next
        case pl: (Inr s2)
        note p = place_piece_result [OF pl, of UNIV]
        show ?thesis
        proof (cases "list_set (used_pieces s2) piece_id True")
          case (Inl e)
          then have "?T (d # rest) s = Inl e" "e = IndexError"
            using cp True pl list_set_error [OF Inl] by (simp_all add: d)
          then show ?thesis by simp
        next
          case ls: (Inr u)
          have u: "u = (used_pieces s)[piece_id := True]" "piece_id < length (used_pieces s)"
            using ls p c by (simp_all add: list_set_Inr)
          let ?s2 = "s2\<lparr>used_pieces := u\<rparr>"
          have "unused ?s2 < unused s"
            unfolding u(1) using u(2) Cons.prems(1) by (rule unused_less)
          then have ne: "rec ?s2 \<noteq> Inl RecursionError"
            using w Cons.prems(2) unfolding within_depth_def by simp
          show ?thesis
          proof (cases "rec ?s2")
            case (Inl e)
            then have "?T (d # rest) s = Inl e" using cp True pl ls by (simp add: d)
            then show ?thesis using ne Inl by simp
          next
            case (Inr r3)
            obtain found s3 where r3: "r3 = (found, s3)" by (cases r3)
            note rc = Inr [unfolded r3]
            show ?thesis
            proof (cases found)
              case True
              then have "?T (d # rest) s = Inr (True, s3)"
                using cp \<open>okp\<close> pl ls rc by (simp add: d)
              then show ?thesis by simp
            next
              case f: False
              have "board s3 = board ?s2 \<and> used_pieces s3 = used_pieces ?s2"
                using k rc f unfolding keeps_def by blast
              then have b3: "board s3 = board s2" "used_pieces s3 = u" by simp_all
              show ?thesis
              proof (cases "remove_piece s3 piece ?sr ?sc")
                case (Inl e)
                then have "?T (d # rest) s = Inl e" "e = IndexError"
                  using cp True pl ls rc f
                    place_piece_error [OF Inl [unfolded remove_piece_eq_place]]
                  by (simp_all add: d)
                then show ?thesis by simp
              next
                case rm: (Inr s4)
                have u4: "used_pieces s4 = u"
                  using place_piece_result [OF rm [unfolded remove_piece_eq_place], of UNIV] b3(2)
                  by simp
                show ?thesis
                proof (cases "list_set (used_pieces s4) piece_id False")
                  case (Inl e)
                  then have "?T (d # rest) s = Inl e" "e = IndexError"
                    using cp True pl ls rc f rm list_set_error [OF Inl] by (simp_all add: d)
                  then show ?thesis by simp
                next
                  case ls': (Inr u')
                  have "u' = u[piece_id := False]" using ls' u4 by (simp add: list_set_Inr)
                  then have u': "u' = used_pieces s"
                    using u Cons.prems(1) by (simp add: list_update_same_conv)
                  have "?T (d # rest) s = ?T rest (s4\<lparr>used_pieces := u'\<rparr>)"
                    using cp True pl ls rc f rm ls' by (simp add: d)
                  moreover have "?T rest (s4\<lparr>used_pieces := u'\<rparr>) \<noteq> Inl RecursionError"
                    using Cons.prems by (intro Cons.IH) (simp_all add: u' unused_def)
                  ultimately show ?thesis by simp
                qed
              qed
            qed
          qed
        qed
      qed
    qed
  qed
qed


lemma try_orientations_within_depth:
  assumes k: "keeps valid_cells rec" and w: "within_depth n rec"
    and s: "\<not> used_pieces s ! piece_id" "unused s \<le> n"
  shows "try_orientations rec valid_cells row col piece_id orientations s \<noteq> Inl RecursionError"
  using s
proof (induction orientations arbitrary: s)
  case Nil
  then show ?case by simp
next
  case (Cons piece rest)
  let ?T = "try_orientations rec valid_cells row col piece_id"
  note ne = try_offsets_within_depth [OF k w Cons.prems, of row col piece piece]
  show ?case
  proof (cases "try_offsets rec valid_cells row col piece_id piece piece s")
    case (Inl e)
    then have "?T (piece # rest) s = Inl e" by simp
    then show ?thesis using ne Inl by simp
  next
    case (Inr r)
    obtain found s1 where r: "r = (found, s1)" by (cases r)
    note o = Inr [unfolded r]
    show ?thesis
    proof (cases found)
      case True
      then have "?T (piece # rest) s = Inr (True, s1)" using o by simp
      then show ?thesis by simp
    next
      case False
      have same: "board s1 = board s" "used_pieces s1 = used_pieces s"
        using try_offsets_keeps [OF k Cons.prems(1) o] False by simp_all
      have "?T (piece # rest) s = ?T rest s1" using o False by simp
      moreover have "?T rest s1 \<noteq> Inl RecursionError"
        using Cons.prems by (intro Cons.IH) (simp_all add: same unused_def)
      ultimately show ?thesis by simp
    qed
  qed
qed

lemma try_pieces_within_depth:
  assumes k: "keeps valid_cells rec" and w: "within_depth n rec"
    and s: "unused s \<le> n"
  shows "try_pieces rec valid_cells row col piece_id pieces_orientations s \<noteq> Inl RecursionError"
  using s
proof (induction pieces_orientations arbitrary: s piece_id)
  case Nil
  then show ?case by simp
next
  case (Cons orientations rest)
  let ?T = "try_pieces rec valid_cells row col"
  show ?case
  proof (cases "list_get (used_pieces s) piece_id")
    case (Inl e)
    then have "?T piece_id (orientations # rest) s = Inl e" "e = IndexError"
      using list_get_error [OF Inl] by simp_all
    then show ?thesis by simp
  next
    case g: (Inr used)
    show ?thesis
    proof (cases used)
      case True
      then have "?T piece_id (orientations # rest) s = ?T (Suc piece_id) rest s"
        using g by simp
      then show ?thesis using Cons.IH [OF Cons.prems] by simp
    next
      case False
      then have nu: "\<not> used_pieces s ! piece_id" using g by (simp add: list_get_Inr)
      note ne = try_orientations_within_depth [OF k w nu Cons.prems, of row col orientations]
      show ?thesis
      proof (cases "try_orientations rec valid_cells row col piece_id orientations s")
        case (Inl e)
        then have "?T piece_id (orientations # rest) s = Inl e" using g False by simp
        then show ?thesis using ne Inl by simp
      next
        case (Inr r)
        obtain found s1 where r: "r = (found, s1)" by (cases r)
        note o = Inr [unfolded r]
        show ?thesis
        proof (cases found)
          case True
          then have "?T piece_id (orientations # rest) s = Inr (True, s1)"
            using g False o by simp
          then show ?thesis by simp
        next
          case f: False
          have same: "board s1 = board s" "used_pieces s1 = used_pieces s"
            using try_orientations_keeps [OF k nu o] f by simp_all
          have "?T piece_id (orientations # rest) s = ?T (Suc piece_id) rest s1"
            using g False o f by simp
          moreover have "?T (Suc piece_id) rest s1 \<noteq> Inl RecursionError"
            using Cons.prems by (intro Cons.IH) (simp add: same unused_def)
          ultimately show ?thesis by simp
        qed
      qed
    qed
  qed
qed

lemma solve_within_depth: "within_depth n (solve n pieces_orientations valid_cells)"
proof (induction n)
  case 0
  then show ?case by (simp add: within_depth_def)
next
  case (Suc n)
  show ?case
    unfolding within_depth_def
  proof (intro allI impI)
    fix s assume a: "unused s < Suc n"
    obtain empty s1 where f: "find_first_empty s valid_cells = Inr (empty, s1)"
      using find_first_empty_total by blast
    note e = find_first_empty_result [OF f]
    show "solve (Suc n) pieces_orientations valid_cells s \<noteq> Inl RecursionError"
    proof (cases empty)
      case None
      then show ?thesis using f by simp
    next
      case (Some rc)
      obtain row col where rc: "rc = (row, col)" by (cases rc)
      have "unused s1 \<le> n" using a e by (simp add: unused_def)
      from try_pieces_within_depth [OF solve_keeps Suc this, of row col 0 pieces_orientations]
      show ?thesis using f Some rc by simp
    qed
  qed
qed

lemma dict_get_error: "dict_get m x = Inl e \<Longrightarrow> e = KeyError"
  by (simp add: dict_get_def split: option.splits)

lemma run_search_error:
  assumes "run_search depth it month day = Inl e" "8 < depth"
  shows "e \<noteq> RecursionError"
proof
  assume e: "e = RecursionError"
  have i: "py_index MONTH_NAMES (month - 1) \<noteq> Inl RecursionError"
    by (simp add: py_index_def list_get_def)
  have d: "dict_get MONTH_TO_POS x \<noteq> Inl RecursionError"
    "dict_get DAY_TO_POS y \<noteq> Inl RecursionError" for x y
    using dict_get_error by fastforce+
  have s: "solve depth pos cells (initial_state cells) \<noteq> Inl RecursionError" for pos cells
    using solve_within_depth [of depth pos cells] assms(2)
    unfolding within_depth_def by (simp add: unused_initial_state)
  from assms(1) [unfolded e] i d s show False
    by (auto simp: run_search_def precompute_piece_orientations_eq andthen_def
        split: sum.splits)
qed

text \<open>
  Claim C8. The recursion depth of \<open>solve\<close> is bounded by the number of pieces:
  every nested call has one more used piece than its caller, so a depth budget above
  the number of unused pieces is never exhausted, whatever the arguments; the search of
  \<open>solve_puzzle\<close> starts with 8 unused pieces and so never nests more than 8 recursive
  calls.
\<close>

theorem recursion_depth_bounded:
  "(unused s < depth \<longrightarrow>
      solve depth pieces_orientations valid_cells s \<noteq> Inl RecursionError)
   \<and> unused (initial_state cells) = length PIECES \<and> length PIECES = 8
   \<and> (length PIECES < depth \<longrightarrow> solve_puzzle depth it month day \<noteq> Inl RecursionError)"
proof -
  have 1: "unused s < depth \<longrightarrow>
      solve depth pieces_orientations valid_cells s \<noteq> Inl RecursionError"
    using solve_within_depth [of depth pieces_orientations valid_cells]
    unfolding within_depth_def by blast
  have l: "length PIECES = 8" by (simp add: PIECES_def)
  have 2: "solve_puzzle depth it month day \<noteq> Inl RecursionError" if "8 < depth"
  proof
    assume "solve_puzzle depth it month day = Inl RecursionError"
    then have "run_search depth it month day = Inl RecursionError"
      by (auto simp: solve_puzzle_def andthen_def split: sum.splits)
    from run_search_error [OF this that] show False by simp
  qed
  from 1 2 l show ?thesis by (simp add: unused_initial_state)
qed

theorem recursion_depth_bounded_witness:
  "unused (initial_state (playable (0, 0) (2, 0))) < 9
   \<and> solve 9 (map id ORIENTATION_TABLE) (playable (0, 0) (2, 0))
        (initial_state (playable (0, 0) (2, 0))) \<noteq> Inl RecursionError
   \<and> length PIECES < 9 \<and> solve_puzzle 9 id 1 1 \<noteq> Inl RecursionError"
proof -
  note t = recursion_depth_bounded [of "initial_state (playable (0, 0) (2, 0))" 9
      "map id ORIENTATION_TABLE" "playable (0, 0) (2, 0)" "playable (0, 0) (2, 0)" id 1 1]
  then have u: "unused (initial_state (playable (0, 0) (2, 0))) < 9" "length PIECES < 9"
    by simp_all
  with t show ?thesis by blast
qed

text \<open>
  Claim C2. The month cell and the day cell are never assigned a piece identifier
  during a search: at every point of the access history of \<open>solve_puzzle\<close> the board
  holds -2 in both cells, and a returned board holds -2 there.
\<close>

theorem target_cells_never_covered:
  assumes "andthen (py_index MONTH_NAMES (month - 1)) (dict_get MONTH_TO_POS) = Inr month_pos"
    and "dict_get DAY_TO_POS day = Inr day_pos"
    and "8 < depth"
  shows "\<exists>found s. run_search depth it month day = Inr (found, s)
    \<and> board s = board_after (accesses s) (board (initial_state (playable month_pos day_pos)))
    \<and> (\<forall>n. board_after (drop n (accesses s)) (board (initial_state (playable month_pos day_pos)))
              month_pos = - 2
           \<and> board_after (drop n (accesses s)) (board (initial_state (playable month_pos day_pos)))
              day_pos = - 2)
    \<and> (\<forall>b. solve_puzzle depth it month day = Inr (Some b) \<longrightarrow>
              b month_pos = - 2 \<and> b day_pos = - 2)"
proof -
  let ?V = "playable month_pos day_pos"
  let ?b0 = "board (initial_state ?V)"
  have "length (map it ORIENTATION_TABLE) = 8" by (simp add: ORIENTATION_TABLE_def)
  from search_outcome [OF playable_on_board this assms(3), of month_pos day_pos]
  obtain found s where r: "run_search depth it month day = Inr (found, s)"
    and c: "continues ?V (initial_state ?V) s"
    unfolding run_search_eq [OF assms(1,2)] by blast
  from c have log: "board s = board_after (accesses s) ?b0"
    "\<forall>a \<in> set (accesses s). access_cell a \<in> ?V"
    unfolding continues_def by (auto simp: initial_state_simps)
  have out: "month_pos \<notin> ?V" "day_pos \<notin> ?V" by (simp_all add: playable_def)
  then have init: "?b0 month_pos = - 2" "?b0 day_pos = - 2"
    by (simp_all add: initial_state_simps)
  have at: "board_after (drop n (accesses s)) ?b0 p = - 2"
    if "p \<notin> ?V" "?b0 p = - 2" for n p
  proof -
    have "\<forall>a \<in> set (drop n (accesses s)). access_cell a \<in> ?V"
      using log(2) by (meson in_set_dropD)
    from board_after_outside [OF this playable_on_board that(1)] that(2) show ?thesis by simp
  qed
  have fin: "board s month_pos = - 2 \<and> board s day_pos = - 2"
    using at [of month_pos 0] at [of day_pos 0] out init log(1) by simp
  have "b month_pos = - 2 \<and> b day_pos = - 2"
    if "solve_puzzle depth it month day = Inr (Some b)" for b
    using that r fin unfolding solve_puzzle_Some by auto
  then show ?thesis using r log(1) at out init by blast
qed

theorem target_cells_never_covered_witness:
  "andthen (py_index MONTH_NAMES (1 - 1)) (dict_get MONTH_TO_POS) = Inr (0, 0)
   \<and> dict_get DAY_TO_POS 1 = Inr (2, 0) \<and> (8::nat) < 9
   \<and> (\<exists>found s. run_search 9 id 1 1 = Inr (found, s)
         \<and> board s (0, 0) = - 2 \<and> board s (2, 0) = - 2)"
proof -
  have d: "(8::nat) < 9" by simp
  from target_cells_never_covered [OF january_lookups d, of id]
  obtain found s where r: "run_search 9 id 1 1 = Inr (found, s)"
    and b: "board s = board_after (accesses s) (board (initial_state (playable (0, 0) (2, 0))))"
    and a: "\<forall>n. board_after (drop n (accesses s)) (board (initial_state (playable (0, 0) (2, 0))))
              (0, 0) = - 2
           \<and> board_after (drop n (accesses s)) (board (initial_state (playable (0, 0) (2, 0))))
              (2, 0) = - 2"
    by blast
  from a [rule_format, of 0] b have "board s (0, 0) = - 2" "board s (2, 0) = - 2" by simp_all
  with r january_lookups d show ?thesis by blast
qed

end
